theory Spec2Isabelle
  imports Main "HOL-Library.Multiset"
begin

section \<open>Exceptions and Python list access\<close>

text \<open>
  The messages of the \<^verbatim>\<open>ValueError\<close>s that \<^verbatim>\<open>main.py\<close> raises, one constructor per
  \<^verbatim>\<open>raise\<close>; the f-string of the neighbour check keeps its four interpolated values.
\<close>

datatype message =
    WrongColumnsCount
  | WrongRowsCount
  | ConstructionWrong int int int int
  | DiagonalContact
  | ShipsIncorrect

datatype error = ValueError message | IndexError | KeyError

type_synonym grid = "int list list"

definition bindE :: "error + 'a \<Rightarrow> ('a \<Rightarrow> error + 'b) \<Rightarrow> error + 'b" where
  "bindE m f = (case m of Inl e \<Rightarrow> Inl e | Inr x \<Rightarrow> f x)"

text \<open>\<^verbatim>\<open>xs[i]\<close>: a negative index counts from the end, an index out of range raises.\<close>

definition getitem :: "'a list \<Rightarrow> int \<Rightarrow> error + 'a" where
  "getitem xs i =
     (let n = int (length xs); k = (if i < 0 then n + i else i)
      in if 0 \<le> k \<and> k < n then Inr (xs ! nat k) else Inl IndexError)"

text \<open>\<^verbatim>\<open>xs[i] = v\<close>, returning the updated list.\<close>

definition setitem :: "'a list \<Rightarrow> int \<Rightarrow> 'a \<Rightarrow> error + 'a list" where
  "setitem xs i v =
     (let n = int (length xs); k = (if i < 0 then n + i else i)
      in if 0 \<le> k \<and> k < n then Inr (xs[nat k := v]) else Inl IndexError)"

text \<open>A list comprehension whose element expression may raise.\<close>

fun collect :: "('a \<Rightarrow> error + 'b) \<Rightarrow> 'a list \<Rightarrow> error + 'b list" where
  "collect f [] = Inr []"
| "collect f (x # xs) =
     (case f x of Inl e \<Rightarrow> Inl e
      | Inr y \<Rightarrow> (case collect f xs of Inl e \<Rightarrow> Inl e | Inr ys \<Rightarrow> Inr (y # ys)))"

section \<open>Validator and BoardValidator\<close>

definition board_length :: int where
  "board_length = 10"

fun check_columns :: "grid \<Rightarrow> error + bool" where
  "check_columns [] = Inr True"
| "check_columns (column # rest) =
     (if int (length column) \<noteq> board_length then Inl (ValueError WrongRowsCount)
      else check_columns rest)"

definition BoardValidator_validate :: "grid \<Rightarrow> error + bool" where
  "BoardValidator_validate board =
     (if int (length board) \<noteq> board_length then Inl (ValueError WrongColumnsCount)
      else check_columns board)"

section \<open>AbstractShipValidator\<close>

definition inspect_cell :: "grid \<Rightarrow> int \<Rightarrow> int \<Rightarrow> error + int" where
  "inspect_cell board i_coord j_coord =
     bindE (getitem board i_coord) (\<lambda>row. getitem row j_coord)"

definition get_neighbor_cell_status :: "grid \<Rightarrow> int \<Rightarrow> int \<Rightarrow> error + int" where
  "get_neighbor_cell_status board i_coord j_coord =
     (if 0 \<le> i_coord \<and> i_coord < board_length \<and> 0 \<le> j_coord \<and> j_coord < board_length
      then inspect_cell board i_coord j_coord
      else Inr 0)"

section \<open>BattleShipsValidator\<close>

definition check_if_neighbor_cells_set_up_correct :: "grid \<Rightarrow> int \<Rightarrow> int \<Rightarrow> error + bool" where
  "check_if_neighbor_cells_set_up_correct board i_coord j_coord =
     bindE (get_neighbor_cell_status board (i_coord - 1) j_coord) (\<lambda>left.
     bindE (get_neighbor_cell_status board (i_coord + 1) j_coord) (\<lambda>right.
     bindE (get_neighbor_cell_status board i_coord (j_coord - 1)) (\<lambda>upper.
     bindE (get_neighbor_cell_status board i_coord (j_coord + 1)) (\<lambda>lower.
       if sum_list [upper, left, right, lower] \<in> {0, 1} then Inr True
       else if left \<noteq> 0 \<and> right \<noteq> 0 \<and> \<not> (upper \<noteq> 0 \<or> lower \<noteq> 0) then Inr True
       else if upper \<noteq> 0 \<and> lower \<noteq> 0 \<and> \<not> (left \<noteq> 0 \<or> right \<noteq> 0) then Inr True
       else Inl (ValueError (ConstructionWrong left right upper lower))))))"

definition check_if_cross_cells_set_up_correct :: "grid \<Rightarrow> int \<Rightarrow> int \<Rightarrow> error + bool" where
  "check_if_cross_cells_set_up_correct board i_coord j_coord =
     bindE (get_neighbor_cell_status board (i_coord - 1) (j_coord + 1)) (\<lambda>left_upper.
     bindE (get_neighbor_cell_status board (i_coord - 1) (j_coord - 1)) (\<lambda>left_lower.
     bindE (get_neighbor_cell_status board (i_coord + 1) (j_coord + 1)) (\<lambda>right_upper.
     bindE (get_neighbor_cell_status board (i_coord + 1) (j_coord - 1)) (\<lambda>right_lower.
       if \<not> list_ex (\<lambda>c. c \<noteq> 0) [left_upper, left_lower, right_upper, right_lower]
       then Inr True
       else Inl (ValueError DiagonalContact)))))"

text \<open>
  The two loops of \<^verbatim>\<open>BattleShipsValidator.validate\<close>: the inner one over the
  \<^verbatim>\<open>j_index\<close> of one column, the outer one over the \<^verbatim>\<open>i_index\<close> of the board. The board
  is not written to, so \<^verbatim>\<open>column\<close> is \<open>board ! i_index\<close> throughout.
\<close>

fun ships_inner :: "grid \<Rightarrow> nat \<Rightarrow> nat list \<Rightarrow> error + unit" where
  "ships_inner board i_index [] = Inr ()"
| "ships_inner board i_index (j_index # rest) =
     bindE (inspect_cell board (int i_index) (int j_index)) (\<lambda>cell.
       if cell = 0 then ships_inner board i_index rest
       else
         bindE (check_if_neighbor_cells_set_up_correct board (int i_index) (int j_index)) (\<lambda>_.
         bindE (check_if_cross_cells_set_up_correct board (int i_index) (int j_index)) (\<lambda>_.
           ships_inner board i_index rest)))"

fun ships_outer :: "grid \<Rightarrow> nat list \<Rightarrow> error + unit" where
  "ships_outer board [] = Inr ()"
| "ships_outer board (i_index # rest) =
     bindE (ships_inner board i_index [0..<length (board ! i_index)]) (\<lambda>_.
       ships_outer board rest)"

definition BattleShipsValidator_validate :: "grid \<Rightarrow> error + bool" where
  "BattleShipsValidator_validate board =
     bindE (ships_outer board [0..<length board]) (\<lambda>_. Inr True)"

section \<open>BattleShipsQuantityValidator\<close>

text \<open>
  The validator's two attributes. The definitions of this section are the validator on a
  grid whose rows are distinct list objects: there the deep copy of \<^verbatim>\<open>__init__\<close> is a grid
  with the same cells and a store to one row changes no other row, so the grid is passed as
  a value. The validator on any grid object, with rows that may be one list object, is
  defined on a store further down (the names ending in \<open>_s\<close>), and
  \<open>store_agrees_with_value\<close> proves that the two agree when the rows are distinct. The
  dictionary is an association list, in insertion order.
\<close>

record quantity_validator =
  board :: grid
  ship_length_to_count :: "(int \<times> int) list"

definition BattleShipsQuantityValidator_init :: "grid \<Rightarrow> quantity_validator" where
  "BattleShipsQuantityValidator_init field =
     \<lparr>board = field, ship_length_to_count = map (\<lambda>key. (key, 5 - key)) [1..4]\<rparr>"

definition validate_ship_vertically :: "grid \<Rightarrow> int \<Rightarrow> int \<Rightarrow> int \<Rightarrow> error + bool" where
  "validate_ship_vertically b i_coord j_coord len =
     bindE (collect (\<lambda>i. get_neighbor_cell_status b (i_coord + i) j_coord) [1..len - 1])
       (\<lambda>cells. Inr (list_all (\<lambda>c. c \<noteq> 0) cells))"

definition validate_ship_horizontally :: "grid \<Rightarrow> int \<Rightarrow> int \<Rightarrow> int \<Rightarrow> error + bool" where
  "validate_ship_horizontally b i_coord j_coord len =
     bindE (collect (\<lambda>i. get_neighbor_cell_status b i_coord (j_coord + i)) [1..len - 1])
       (\<lambda>cells. Inr (list_all (\<lambda>c. c \<noteq> 0) cells))"

text \<open>
  \<^verbatim>\<open>self.board[a][b] = v\<close>: the row is fetched, then written to. With distinct row
  objects only entry \<open>a\<close> of the board changes (\<open>store_cell_s\<close> is the store on any grid
  object).
\<close>

definition store_cell :: "grid \<Rightarrow> int \<Rightarrow> int \<Rightarrow> int \<Rightarrow> error + grid" where
  "store_cell b a c v =
     bindE (getitem b a) (\<lambda>row.
     bindE (setitem row c v) (\<lambda>row'.
       setitem b a row'))"

fun drop_vertically_loop :: "grid \<Rightarrow> int \<Rightarrow> int \<Rightarrow> int list \<Rightarrow> error + grid" where
  "drop_vertically_loop b i_coord j_coord [] = Inr b"
| "drop_vertically_loop b i_coord j_coord (i # rest) =
     bindE (store_cell b (i_coord + i) j_coord 0) (\<lambda>b'.
       drop_vertically_loop b' i_coord j_coord rest)"

definition drop_vertically :: "grid \<Rightarrow> int \<Rightarrow> int \<Rightarrow> int \<Rightarrow> error + grid" where
  "drop_vertically b i_coord j_coord len = drop_vertically_loop b i_coord j_coord [1..len - 1]"

fun drop_horizontally_loop :: "grid \<Rightarrow> int \<Rightarrow> int \<Rightarrow> int list \<Rightarrow> error + grid" where
  "drop_horizontally_loop b i_coord j_coord [] = Inr b"
| "drop_horizontally_loop b i_coord j_coord (i # rest) =
     bindE (store_cell b i_coord (j_coord + i) 0) (\<lambda>b'.
       drop_horizontally_loop b' i_coord j_coord rest)"

definition drop_horizontally :: "grid \<Rightarrow> int \<Rightarrow> int \<Rightarrow> int \<Rightarrow> error + grid" where
  "drop_horizontally b i_coord j_coord len = drop_horizontally_loop b i_coord j_coord [1..len - 1]"

definition drop_ship :: "grid \<Rightarrow> int \<Rightarrow> int \<Rightarrow> int \<Rightarrow> error + (grid \<times> bool)" where
  "drop_ship b i_coord j_coord len =
     bindE (validate_ship_vertically b i_coord j_coord len) (\<lambda>vertical.
     bindE (if vertical then drop_vertically b i_coord j_coord len else Inr b) (\<lambda>b1.
     bindE (validate_ship_horizontally b1 i_coord j_coord len) (\<lambda>horizontal.
     bindE (if horizontal then drop_horizontally b1 i_coord j_coord len else Inr b1) (\<lambda>b2.
       Inr (b2, vertical \<or> horizontal)))))"

definition drop_flagman :: "grid \<Rightarrow> int \<Rightarrow> int \<Rightarrow> error + (grid \<times> bool)" where
  "drop_flagman b i_coord j_coord = drop_ship b i_coord j_coord 4"

definition drop_cruiser :: "grid \<Rightarrow> int \<Rightarrow> int \<Rightarrow> error + (grid \<times> bool)" where
  "drop_cruiser b i_coord j_coord = drop_ship b i_coord j_coord 3"

definition drop_destroyer :: "grid \<Rightarrow> int \<Rightarrow> int \<Rightarrow> error + (grid \<times> bool)" where
  "drop_destroyer b i_coord j_coord = drop_ship b i_coord j_coord 2"

text \<open>\<^verbatim>\<open>self.ship_length_to_count[key] -= 1\<close>\<close>

definition decrement :: "(int \<times> int) list \<Rightarrow> int \<Rightarrow> error + (int \<times> int) list" where
  "decrement d key =
     (case map_of d key of
        None \<Rightarrow> Inl KeyError
      | Some v \<Rightarrow> Inr (map (\<lambda>(k, w). if k = key then (k, v - 1) else (k, w)) d))"

text \<open>The body of the inner loop of \<^verbatim>\<open>BattleShipsQuantityValidator.validate\<close>.\<close>

definition count_cell :: "quantity_validator \<Rightarrow> nat \<Rightarrow> nat \<Rightarrow> error + quantity_validator" where
  "count_cell self i_index j_index =
     bindE (inspect_cell (board self) (int i_index) (int j_index)) (\<lambda>cell.
       if cell = 0 then Inr self
       else
         bindE (drop_flagman (board self) (int i_index) (int j_index)) (\<lambda>(b4, flagman).
           if flagman then
             bindE (decrement (ship_length_to_count self) 4) (\<lambda>d.
               Inr \<lparr>board = b4, ship_length_to_count = d\<rparr>)
           else
             bindE (drop_cruiser b4 (int i_index) (int j_index)) (\<lambda>(b3, cruiser).
               if cruiser then
                 bindE (decrement (ship_length_to_count self) 3) (\<lambda>d.
                   Inr \<lparr>board = b3, ship_length_to_count = d\<rparr>)
               else
                 bindE (drop_destroyer b3 (int i_index) (int j_index)) (\<lambda>(b2, destroyer).
                   if destroyer then
                     bindE (decrement (ship_length_to_count self) 2) (\<lambda>d.
                       Inr \<lparr>board = b2, ship_length_to_count = d\<rparr>)
                   else
                     bindE (decrement (ship_length_to_count self) 1) (\<lambda>d.
                       Inr \<lparr>board = b2, ship_length_to_count = d\<rparr>)))))"

fun count_inner :: "quantity_validator \<Rightarrow> nat \<Rightarrow> nat list \<Rightarrow> error + quantity_validator" where
  "count_inner self i_index [] = Inr self"
| "count_inner self i_index (j_index # rest) =
     bindE (count_cell self i_index j_index) (\<lambda>self'. count_inner self' i_index rest)"

text \<open>
  The outer loop: \<^verbatim>\<open>column\<close> is the row object at \<^verbatim>\<open>i_index\<close>, whose length no store changes,
  so the inner loop runs over the indices of the row as it is when the loop reaches it.
\<close>

fun count_outer :: "quantity_validator \<Rightarrow> nat list \<Rightarrow> error + quantity_validator" where
  "count_outer self [] = Inr self"
| "count_outer self (i_index # rest) =
     bindE (count_inner self i_index [0..<length (board self ! i_index)]) (\<lambda>self'.
       count_outer self' rest)"

definition BattleShipsQuantityValidator_validate :: "grid \<Rightarrow> error + bool" where
  "BattleShipsQuantityValidator_validate field =
     (let self = BattleShipsQuantityValidator_init field in
      bindE (count_outer self [0..<length (board self)]) (\<lambda>self'.
        let result = list_all (\<lambda>x. x = 0) (map snd (ship_length_to_count self'))
        in if \<not> result then Inl (ValueError ShipsIncorrect) else Inr True))"

section \<open>validate_battlefield\<close>

datatype validator = BoardValidator | BattleShipsValidator | BattleShipsQuantityValidator

text \<open>
  What a call does besides returning: each \<^verbatim>\<open>_validator.validate()\<close> it makes and each
  \<^verbatim>\<open>logger.debug\<close> message, in order.
\<close>

datatype event = Validate validator | Debug message

fun validator_validate :: "validator \<Rightarrow> grid \<Rightarrow> error + bool" where
  "validator_validate BoardValidator field = BoardValidator_validate field"
| "validator_validate BattleShipsValidator field = BattleShipsValidator_validate field"
| "validator_validate BattleShipsQuantityValidator field =
     BattleShipsQuantityValidator_validate field"

text \<open>
  The loop over \<^verbatim>\<open>validators\<close>: a \<^verbatim>\<open>ValueError\<close> is caught, logged and turned into
  \<^verbatim>\<open>False\<close>; any other exception leaves the function.
\<close>

fun run_validators :: "validator list \<Rightarrow> grid \<Rightarrow> event list \<times> (error + bool)" where
  "run_validators [] field = ([], Inr True)"
| "run_validators (v # rest) field =
     (case validator_validate v field of
        Inl (ValueError reason) \<Rightarrow> ([Validate v, Debug reason], Inr False)
      | Inl e \<Rightarrow> ([Validate v], Inl e)
      | Inr _ \<Rightarrow>
          (case run_validators rest field of (events, r) \<Rightarrow> (Validate v # events, r)))"

definition validate_battlefield :: "grid \<Rightarrow> event list \<times> (error + bool)" where
  "validate_battlefield field =
     run_validators [BoardValidator, BattleShipsValidator, BattleShipsQuantityValidator] field"

section \<open>Grids: shape, cell values, and reading a cell\<close>

text \<open>
  A grid is \<open>square\<close> when it has ten rows of ten cells, and \<open>binary\<close> when every cell is
  0 or 1. \<open>status g i j\<close> is the state of the cell at row \<open>i\<close>, column \<open>j\<close>, with every
  coordinate outside the board read as empty.
\<close>

definition square :: "grid \<Rightarrow> bool" where
  "square g = (length g = 10 \<and> list_all (\<lambda>row. length row = 10) g)"

definition binary :: "grid \<Rightarrow> bool" where
  "binary g = list_all (list_all (\<lambda>c. c = 0 \<or> c = 1)) g"

definition status :: "grid \<Rightarrow> int \<Rightarrow> int \<Rightarrow> int" where
  "status g i j = (if 0 \<le> i \<and> i < 10 \<and> 0 \<le> j \<and> j < 10 then g ! nat i ! nat j else 0)"

lemma bindE_Inl [simp]: "bindE (Inl e) f = Inl e"
  by (simp add: bindE_def)

lemma bindE_Inr [simp]: "bindE (Inr x) f = f x"
  by (simp add: bindE_def)

lemma square_row: "square g \<Longrightarrow> i < 10 \<Longrightarrow> length (g ! i) = 10"
  by (simp add: square_def list_all_length)

lemma square_length: "square g \<Longrightarrow> length g = 10"
  by (simp add: square_def)

lemma check_columns_eq:
  "check_columns g =
     (if list_all (\<lambda>row. length row = 10) g then Inr True else Inl (ValueError WrongRowsCount))"
  by (induction g) (auto simp: board_length_def)

lemma BoardValidator_validate_eq:
  "BoardValidator_validate g =
     (if length g \<noteq> 10 then Inl (ValueError WrongColumnsCount)
      else if \<not> list_all (\<lambda>row. length row = 10) g then Inl (ValueError WrongRowsCount)
      else Inr True)"
  by (simp add: BoardValidator_validate_def check_columns_eq board_length_def)

lemma BoardValidator_square: "square g \<Longrightarrow> BoardValidator_validate g = Inr True"
  by (simp add: BoardValidator_validate_eq square_def)

lemma inspect_cell_square:
  "square g \<Longrightarrow> 0 \<le> i \<Longrightarrow> i < 10 \<Longrightarrow> 0 \<le> j \<Longrightarrow> j < 10 \<Longrightarrow>
     inspect_cell g i j = Inr (g ! nat i ! nat j)"
  by (simp add: inspect_cell_def getitem_def square_length square_row)

lemma get_neighbor_cell_status_square:
  "square g \<Longrightarrow> get_neighbor_cell_status g i j = Inr (status g i j)"
  by (simp add: get_neighbor_cell_status_def status_def board_length_def inspect_cell_square)

lemma inspect_cell_status:
  "square g \<Longrightarrow> i < 10 \<Longrightarrow> j < 10 \<Longrightarrow> inspect_cell g (int i) (int j) = Inr (status g (int i) (int j))"
  by (simp add: inspect_cell_square status_def)

lemma binary_status: "square g \<Longrightarrow> binary g \<Longrightarrow> status g i j = 0 \<or> status g i j = 1"
proof (cases "0 \<le> i \<and> i < 10 \<and> 0 \<le> j \<and> j < 10")
  case True
  assume sq: "square g" and bin: "binary g"
  from True have "nat i < 10" "nat j < 10" by auto
  with sq bin have "g ! nat i ! nat j = 0 \<or> g ! nat i ! nat j = 1"
    by (simp add: binary_def square_def list_all_length)
  with True show ?thesis by (simp add: status_def)
next
  case False
  then show ?thesis by (auto simp: status_def)
qed

section \<open>The contact checker on a square grid\<close>

text \<open>A cell passes when it is empty or both of its checks return.\<close>

definition cell_ok :: "grid \<Rightarrow> int \<Rightarrow> int \<Rightarrow> bool" where
  "cell_ok g i j =
     (status g i j = 0 \<or>
      (check_if_neighbor_cells_set_up_correct g i j = Inr True \<and>
       check_if_cross_cells_set_up_correct g i j = Inr True))"

lemma check_neighbor_square:
  "square g \<Longrightarrow>
   check_if_neighbor_cells_set_up_correct g i j =
     (let left = status g (i - 1) j; right = status g (i + 1) j;
          upper = status g i (j - 1); lower = status g i (j + 1)
      in if upper + left + right + lower = 0 \<or> upper + left + right + lower = 1 then Inr True
         else if left \<noteq> 0 \<and> right \<noteq> 0 \<and> upper = 0 \<and> lower = 0 then Inr True
         else if upper \<noteq> 0 \<and> lower \<noteq> 0 \<and> left = 0 \<and> right = 0 then Inr True
         else Inl (ValueError (ConstructionWrong left right upper lower)))"
  by (simp add: check_if_neighbor_cells_set_up_correct_def get_neighbor_cell_status_square Let_def)

lemma check_cross_square:
  "square g \<Longrightarrow>
   check_if_cross_cells_set_up_correct g i j =
     (if status g (i - 1) (j + 1) = 0 \<and> status g (i - 1) (j - 1) = 0 \<and>
         status g (i + 1) (j + 1) = 0 \<and> status g (i + 1) (j - 1) = 0
      then Inr True else Inl (ValueError DiagonalContact))"
  by (simp add: check_if_cross_cells_set_up_correct_def get_neighbor_cell_status_square)

lemma check_neighbor_outcome:
  "square g \<Longrightarrow>
   check_if_neighbor_cells_set_up_correct g i j = Inr True \<or>
   (\<exists>m. check_if_neighbor_cells_set_up_correct g i j = Inl (ValueError m))"
  by (simp add: check_neighbor_square Let_def)

lemma check_cross_outcome:
  "square g \<Longrightarrow>
   check_if_cross_cells_set_up_correct g i j = Inr True \<or>
   (\<exists>m. check_if_cross_cells_set_up_correct g i j = Inl (ValueError m))"
  by (simp add: check_cross_square)

lemma ships_inner_ok:
  "square g \<Longrightarrow> i < 10 \<Longrightarrow> \<forall>j\<in>set js. j < 10 \<Longrightarrow>
   \<forall>j\<in>set js. cell_ok g (int i) (int j) \<Longrightarrow> ships_inner g i js = Inr ()"
  by (induction js) (auto simp: inspect_cell_status cell_ok_def)

lemma ships_inner_fail:
  "square g \<Longrightarrow> i < 10 \<Longrightarrow> \<forall>j\<in>set js. j < 10 \<Longrightarrow>
   \<exists>j\<in>set js. \<not> cell_ok g (int i) (int j) \<Longrightarrow> \<exists>m. ships_inner g i js = Inl (ValueError m)"
proof (induction js)
  case Nil
  then show ?case by simp
next
  case (Cons j js)
  show ?case
  proof (cases "cell_ok g (int i) (int j)")
    case True
    with Cons.prems have "\<exists>j\<in>set js. \<not> cell_ok g (int i) (int j)" by auto
    with Cons have ih: "\<exists>m. ships_inner g i js = Inl (ValueError m)" by auto
    from True ih Cons.prems(1,2,3) show ?thesis
      by (auto simp: inspect_cell_status cell_ok_def)
  next
    case False
    with Cons.prems(1,2,3) check_neighbor_outcome [of g "int i" "int j"]
      check_cross_outcome [of g "int i" "int j"]
    show ?thesis
      by (auto simp: inspect_cell_status cell_ok_def)
  qed
qed

lemma ships_outer_ok:
  "square g \<Longrightarrow> \<forall>i\<in>set is. i < 10 \<Longrightarrow>
   \<forall>i\<in>set is. \<forall>j<10. cell_ok g (int i) (int j) \<Longrightarrow> ships_outer g is = Inr ()"
  by (induction "is") (auto simp: square_row ships_inner_ok)

lemma ships_outer_fail:
  "square g \<Longrightarrow> \<forall>i\<in>set is. i < 10 \<Longrightarrow>
   \<exists>i\<in>set is. \<exists>j<10. \<not> cell_ok g (int i) (int j) \<Longrightarrow>
   \<exists>m. ships_outer g is = Inl (ValueError m)"
proof (induction "is")
  case Nil
  then show ?case by simp
next
  case (Cons i "is")
  show ?case
  proof (cases "\<forall>j<10. cell_ok g (int i) (int j)")
    case True
    with Cons.prems have "\<exists>i\<in>set is. \<exists>j<10. \<not> cell_ok g (int i) (int j)" by auto
    with Cons have ih: "\<exists>m. ships_outer g is = Inl (ValueError m)" by auto
    from True Cons.prems(1,2) have "ships_inner g i [0..<10] = Inr ()"
      by (intro ships_inner_ok) auto
    with ih Cons.prems(1,2) show ?thesis by (simp add: square_row)
  next
    case False
    with Cons.prems(1,2) have "\<exists>m. ships_inner g i [0..<10] = Inl (ValueError m)"
      by (intro ships_inner_fail) auto
    with Cons.prems(1,2) show ?thesis by (auto simp: square_row)
  qed
qed

lemma BattleShipsValidator_ok:
  "square g \<Longrightarrow> \<forall>i<10. \<forall>j<10. cell_ok g (int i) (int j) \<Longrightarrow>
   BattleShipsValidator_validate g = Inr True"
  by (simp add: BattleShipsValidator_validate_def square_length ships_outer_ok)

lemma BattleShipsValidator_fail:
  "square g \<Longrightarrow> i < 10 \<Longrightarrow> j < 10 \<Longrightarrow> \<not> cell_ok g (int i) (int j) \<Longrightarrow>
   \<exists>m. BattleShipsValidator_validate g = Inl (ValueError m)"
proof -
  assume a: "square g" "i < 10" "j < 10" "\<not> cell_ok g (int i) (int j)"
  then have "\<exists>m. ships_outer g [0..<10] = Inl (ValueError m)"
    by (intro ships_outer_fail) auto
  with a show ?thesis
    by (auto simp: BattleShipsValidator_validate_def square_length)
qed

lemma BattleShipsValidator_outcome:
  "square g \<Longrightarrow>
   BattleShipsValidator_validate g = Inr True \<or>
   (\<exists>m. BattleShipsValidator_validate g = Inl (ValueError m))"
  using BattleShipsValidator_ok [of g] BattleShipsValidator_fail [of g] by blast

lemma validate_battlefield_unfold:
  "validate_battlefield g =
     (case BoardValidator_validate g of
        Inl (ValueError m) \<Rightarrow> ([Validate BoardValidator, Debug m], Inr False)
      | Inl e \<Rightarrow> ([Validate BoardValidator], Inl e)
      | Inr _ \<Rightarrow>
        (case BattleShipsValidator_validate g of
           Inl (ValueError m) \<Rightarrow>
             ([Validate BoardValidator, Validate BattleShipsValidator, Debug m], Inr False)
         | Inl e \<Rightarrow> ([Validate BoardValidator, Validate BattleShipsValidator], Inl e)
         | Inr _ \<Rightarrow>
           (case BattleShipsQuantityValidator_validate g of
              Inl (ValueError m) \<Rightarrow>
                ([Validate BoardValidator, Validate BattleShipsValidator,
                  Validate BattleShipsQuantityValidator, Debug m], Inr False)
            | Inl e \<Rightarrow>
                ([Validate BoardValidator, Validate BattleShipsValidator,
                  Validate BattleShipsQuantityValidator], Inl e)
            | Inr _ \<Rightarrow>
                ([Validate BoardValidator, Validate BattleShipsValidator,
                  Validate BattleShipsQuantityValidator], Inr True))))"
  by (simp add: validate_battlefield_def split: sum.splits error.splits)

lemma validate_battlefield_contact_fail:
  "square g \<Longrightarrow> BattleShipsValidator_validate g = Inl (ValueError m) \<Longrightarrow>
   validate_battlefield g =
     ([Validate BoardValidator, Validate BattleShipsValidator, Debug m], Inr False)"
  by (simp add: validate_battlefield_unfold BoardValidator_square)

section \<open>Concrete grids\<close>

definition occupied_cells :: "grid \<Rightarrow> (nat \<times> nat) list" where
  "occupied_cells g =
     concat (map (\<lambda>i. map (\<lambda>j. (i, j)) (filter (\<lambda>j. g ! i ! j \<noteq> 0) [0..<length (g ! i)]))
       [0..<length g])"

definition diagonal_pair :: grid where
  "diagonal_pair =
     [[1, 0, 0, 0, 0, 0, 0, 0, 0, 0],
      [0, 1, 0, 0, 0, 0, 0, 0, 0, 0],
      [0, 0, 0, 0, 0, 0, 0, 0, 0, 0],
      [0, 0, 0, 0, 0, 0, 0, 0, 0, 0],
      [0, 0, 0, 0, 0, 0, 0, 0, 0, 0],
      [0, 0, 0, 0, 0, 0, 0, 0, 0, 0],
      [0, 0, 0, 0, 0, 0, 0, 0, 0, 0],
      [0, 0, 0, 0, 0, 0, 0, 0, 0, 0],
      [0, 0, 0, 0, 0, 0, 0, 0, 0, 0],
      [0, 0, 0, 0, 0, 0, 0, 0, 0, 0]]"

definition bent_ship :: grid where
  "bent_ship =
     [[1, 1, 0, 0, 0, 0, 0, 0, 0, 0],
      [0, 1, 0, 0, 0, 0, 0, 0, 0, 0],
      [0, 0, 0, 0, 0, 0, 0, 0, 0, 0],
      [0, 0, 0, 0, 0, 0, 0, 0, 0, 0],
      [0, 0, 0, 0, 0, 0, 0, 0, 0, 0],
      [0, 0, 0, 0, 0, 0, 0, 0, 0, 0],
      [0, 0, 0, 0, 0, 0, 0, 0, 0, 0],
      [0, 0, 0, 0, 0, 0, 0, 0, 0, 0],
      [0, 0, 0, 0, 0, 0, 0, 0, 0, 0],
      [0, 0, 0, 0, 0, 0, 0, 0, 0, 0]]"

definition run_of_five :: grid where
  "run_of_five =
     [[0, 0, 0, 0, 0, 0, 0, 0, 0, 0],
      [0, 0, 1, 1, 1, 1, 1, 0, 0, 0],
      [0, 0, 0, 0, 0, 0, 0, 0, 0, 0],
      [0, 0, 0, 0, 0, 0, 0, 0, 0, 0],
      [0, 0, 0, 0, 0, 0, 0, 0, 0, 0],
      [0, 0, 0, 0, 0, 0, 0, 0, 0, 0],
      [0, 0, 0, 0, 0, 0, 0, 0, 0, 0],
      [0, 0, 0, 0, 0, 0, 0, 0, 0, 0],
      [0, 0, 0, 0, 0, 0, 0, 0, 0, 0],
      [0, 0, 0, 0, 0, 0, 0, 0, 0, 0]]"

definition full_fleet :: grid where
  "full_fleet =
     [[1, 0, 0, 0, 0, 1, 1, 0, 0, 0],
      [1, 0, 1, 0, 0, 0, 0, 0, 1, 0],
      [1, 0, 1, 0, 1, 1, 1, 0, 1, 0],
      [1, 0, 0, 0, 0, 0, 0, 0, 0, 0],
      [0, 0, 0, 0, 0, 0, 0, 0, 1, 0],
      [0, 0, 0, 0, 1, 1, 1, 0, 0, 0],
      [0, 0, 0, 0, 0, 0, 0, 0, 1, 0],
      [0, 0, 0, 1, 0, 0, 0, 0, 0, 0],
      [0, 0, 0, 0, 0, 0, 0, 1, 0, 0],
      [0, 0, 0, 0, 0, 0, 0, 0, 0, 0]]"

definition five_cell_fleet :: grid where
  "five_cell_fleet =
     [[1, 0, 0, 0, 0, 1, 1, 0, 0, 0],
      [1, 0, 1, 0, 0, 0, 0, 0, 1, 0],
      [1, 0, 1, 0, 1, 1, 1, 0, 1, 0],
      [1, 0, 0, 0, 0, 0, 0, 0, 0, 0],
      [1, 0, 0, 0, 0, 0, 0, 0, 1, 0],
      [0, 0, 0, 0, 1, 1, 1, 0, 0, 0],
      [0, 0, 0, 0, 0, 0, 0, 0, 1, 0],
      [0, 0, 0, 0, 0, 0, 0, 0, 0, 0],
      [0, 0, 0, 0, 0, 0, 0, 1, 0, 0],
      [0, 0, 0, 0, 0, 0, 0, 0, 0, 0]]"

section \<open>The shape check, the contact checker and the order of the checks\<close>

text \<open>
  C1 (fails on the code). The grid \<open>five_cell_fleet\<close> holds a vertical run of five cells in
  column 0 (rows 0 to 4), two runs of three, three runs of two and three single cells. The
  run of five is not a ship of 1 to 4 cells, yet all three validators accept the grid: the
  fleet counter takes the first four cells as a 4-cell ship and the fifth as a 1-cell ship.
\<close>

theorem five_cell_run_accepted:
  "square five_cell_fleet \<and> binary five_cell_fleet \<and>
   map (\<lambda>i. five_cell_fleet ! i ! 0) [0..<6] = [1, 1, 1, 1, 1, 0] \<and>
   validate_battlefield five_cell_fleet =
     ([Validate BoardValidator, Validate BattleShipsValidator,
       Validate BattleShipsQuantityValidator], Inr True)"
  by code_simp

text \<open>
  C3. For an occupied cell of a square binary grid, with \<open>S\<close> the number of occupied
  orthogonal neighbours (outside the board counting as empty): the neighbour check returns
  when \<open>S\<close> is 0 or 1, or when \<open>S\<close> is 2 and the two neighbours are the pair on one axis;
  in every other case (a pair across the axes, three or four neighbours) it raises, the
  contact checker raises, and \<open>validate_battlefield\<close> returns \<open>False\<close>.
\<close>

theorem neighbor_rule:
  assumes "square g" and "binary g" and "i < 10" and "j < 10"
    and "status g (int i) (int j) = 1"
  shows
    "(let left = status g (int i - 1) (int j); right = status g (int i + 1) (int j);
          upper = status g (int i) (int j - 1); lower = status g (int i) (int j + 1);
          S = left + right + upper + lower;
          accepted = (S = 0 \<or> S = 1 \<or> S = 2 \<and> (left = 1 \<and> right = 1 \<or> upper = 1 \<and> lower = 1))
      in (accepted \<longrightarrow>
            check_if_neighbor_cells_set_up_correct g (int i) (int j) = Inr True) \<and>
         (\<not> accepted \<longrightarrow>
            check_if_neighbor_cells_set_up_correct g (int i) (int j) =
              Inl (ValueError (ConstructionWrong left right upper lower)) \<and>
            (\<exists>m. BattleShipsValidator_validate g = Inl (ValueError m)) \<and>
            snd (validate_battlefield g) = Inr False))"
proof -
  let ?l = "status g (int i - 1) (int j)" and ?r = "status g (int i + 1) (int j)"
  let ?u = "status g (int i) (int j - 1)" and ?d = "status g (int i) (int j + 1)"
  let ?acc = "?l + ?r + ?u + ?d = 0 \<or> ?l + ?r + ?u + ?d = 1 \<or>
     ?l + ?r + ?u + ?d = 2 \<and> (?l = 1 \<and> ?r = 1 \<or> ?u = 1 \<and> ?d = 1)"
  have b: "?l = 0 \<or> ?l = 1" "?r = 0 \<or> ?r = 1" "?u = 0 \<or> ?u = 1" "?d = 0 \<or> ?d = 1"
    using assms(1,2) by (simp_all add: binary_status)
  have chk: "check_if_neighbor_cells_set_up_correct g (int i) (int j) =
      (if ?acc then Inr True else Inl (ValueError (ConstructionWrong ?l ?r ?u ?d)))"
    using b by (auto simp: check_neighbor_square [OF assms(1)] Let_def)
  have fail: "(\<exists>m. BattleShipsValidator_validate g = Inl (ValueError m)) \<and>
      snd (validate_battlefield g) = Inr False" if "\<not> ?acc"
  proof -
    from that chk have "check_if_neighbor_cells_set_up_correct g (int i) (int j) \<noteq> Inr True"
      by simp
    with assms(5) have "\<not> cell_ok g (int i) (int j)"
      by (simp add: cell_ok_def)
    with assms obtain m where m: "BattleShipsValidator_validate g = Inl (ValueError m)"
      using BattleShipsValidator_fail by blast
    with assms(1) show ?thesis
      by (simp add: validate_battlefield_contact_fail)
  qed
  from chk fail show ?thesis
    unfolding Let_def by (cases ?acc) simp_all
qed

theorem neighbor_rule_witness:
  "square bent_ship \<and> binary bent_ship \<and> status bent_ship 0 1 = 1 \<and>
   check_if_neighbor_cells_set_up_correct bent_ship 0 1 =
     Inl (ValueError (ConstructionWrong 0 1 1 0)) \<and>
   snd (validate_battlefield bent_ship) = Inr False \<and>
   square run_of_five \<and> binary run_of_five \<and> status run_of_five 1 3 = 1 \<and>
   check_if_neighbor_cells_set_up_correct run_of_five 1 3 = Inr True"
proof -
  have a: "square bent_ship" "binary bent_ship" "status bent_ship (int 0) (int 1) = 1"
    by (simp_all add: square_def binary_def status_def bent_ship_def)
  have b: "square run_of_five" "binary run_of_five" "status run_of_five (int 1) (int 3) = 1"
    by (simp_all add: square_def binary_def status_def run_of_five_def)
  have s1: "status bent_ship (int 0 - 1) (int 1) = 0" "status bent_ship (int 0 + 1) (int 1) = 1"
     "status bent_ship (int 0) (int 1 - 1) = 1" "status bent_ship (int 0) (int 1 + 1) = 0"
    by (simp_all add: status_def bent_ship_def)
  have s2: "status run_of_five (int 1 - 1) (int 3) = 0" "status run_of_five (int 1 + 1) (int 3) = 0"
     "status run_of_five (int 1) (int 3 - 1) = 1" "status run_of_five (int 1) (int 3 + 1) = 1"
    by (simp_all add: status_def run_of_five_def)
  from neighbor_rule [OF a(1,2) _ _ a(3)] neighbor_rule [OF b(1,2) _ _ b(3)] a b s1 s2
  show ?thesis by (simp add: Let_def)
qed

text \<open>
  C4. On a square grid, an occupied cell with an occupied diagonal neighbour fails the
  diagonal check, so the contact checker raises and \<open>validate_battlefield\<close> returns
  \<open>False\<close>. The witness is the grid with cells (0,0) and (1,1) occupied and nothing else.
\<close>

theorem diagonal_rule:
  assumes "square g" and "i < 10" and "j < 10"
    and "status g (int i) (int j) \<noteq> 0"
    and "status g (int i - 1) (int j - 1) \<noteq> 0 \<or> status g (int i - 1) (int j + 1) \<noteq> 0 \<or>
         status g (int i + 1) (int j - 1) \<noteq> 0 \<or> status g (int i + 1) (int j + 1) \<noteq> 0"
  shows "check_if_cross_cells_set_up_correct g (int i) (int j) = Inl (ValueError DiagonalContact) \<and>
         (\<exists>m. BattleShipsValidator_validate g = Inl (ValueError m)) \<and>
         snd (validate_battlefield g) = Inr False"
proof -
  from assms(5) have c: "check_if_cross_cells_set_up_correct g (int i) (int j) =
      Inl (ValueError DiagonalContact)"
    by (auto simp: check_cross_square [OF assms(1)])
  with assms(4) have "\<not> cell_ok g (int i) (int j)"
    by (simp add: cell_ok_def)
  with assms obtain m where m: "BattleShipsValidator_validate g = Inl (ValueError m)"
    using BattleShipsValidator_fail by blast
  with assms(1) c show ?thesis
    by (simp add: validate_battlefield_contact_fail)
qed

theorem diagonal_rule_witness:
  "square diagonal_pair \<and> occupied_cells diagonal_pair = [(0, 0), (1, 1)] \<and>
   check_if_cross_cells_set_up_correct diagonal_pair 0 0 = Inl (ValueError DiagonalContact) \<and>
   (\<exists>m. BattleShipsValidator_validate diagonal_pair = Inl (ValueError m)) \<and>
   snd (validate_battlefield diagonal_pair) = Inr False"
proof -
  have a: "square diagonal_pair" "status diagonal_pair (int 0) (int 0) \<noteq> 0"
    "status diagonal_pair (int 0 + 1) (int 0 + 1) \<noteq> 0"
    by (simp_all add: square_def status_def diagonal_pair_def)
  have o: "occupied_cells diagonal_pair = [(0, 0), (1, 1)]"
    by code_simp
  from diagonal_rule [of diagonal_pair 0 0] a o show ?thesis by simp
qed

text \<open>
  C5. A grid whose number of rows is not 10, or with a row whose length is not 10, makes
  \<open>validate_battlefield\<close> return \<open>False\<close>; the only validator that runs is the shape
  check, whose message is logged.
\<close>

theorem shape_rejected:
  assumes "length g \<noteq> 10 \<or> (\<exists>row\<in>set g. length row \<noteq> 10)"
  shows "validate_battlefield g =
           ([Validate BoardValidator,
             Debug (if length g \<noteq> 10 then WrongColumnsCount else WrongRowsCount)], Inr False)"
  using assms
  by (auto simp: validate_battlefield_unfold BoardValidator_validate_eq list_all_iff)

theorem shape_rejected_witness:
  "validate_battlefield [[0, 1], [1, 0]] =
     ([Validate BoardValidator, Debug WrongColumnsCount], Inr False) \<and>
   validate_battlefield (replicate 10 [0, 0, 0]) =
     ([Validate BoardValidator, Debug WrongRowsCount], Inr False)"
  using shape_rejected [of "[[0, 1], [1, 0]]"] shape_rejected [of "replicate 10 [0, 0, 0]"]
  by simp

lemma BoardValidator_True: "BoardValidator_validate g = Inr b \<Longrightarrow> b"
  by (simp add: BoardValidator_validate_eq split: if_splits)

lemma BattleShipsValidator_True: "BattleShipsValidator_validate g = Inr b \<Longrightarrow> b"
  by (auto simp: BattleShipsValidator_validate_def bindE_def split: sum.splits)

lemma BattleShipsQuantityValidator_True: "BattleShipsQuantityValidator_validate g = Inr b \<Longrightarrow> b"
  by (auto simp: BattleShipsQuantityValidator_validate_def bindE_def Let_def
      split: sum.splits if_splits)

text \<open>
  C8. \<open>validate_battlefield\<close> runs the shape check, the contact check and the fleet count
  in this order; the first that raises a \<open>ValueError\<close> has its message logged and the result
  is \<open>False\<close>, with no later validator run; the result is \<open>True\<close> exactly when all three
  return.
\<close>

theorem fixed_order_fail_fast:
  "validate_battlefield g =
     (case BoardValidator_validate g of
        Inl (ValueError m) \<Rightarrow> ([Validate BoardValidator, Debug m], Inr False)
      | Inl e \<Rightarrow> ([Validate BoardValidator], Inl e)
      | Inr _ \<Rightarrow>
        (case BattleShipsValidator_validate g of
           Inl (ValueError m) \<Rightarrow>
             ([Validate BoardValidator, Validate BattleShipsValidator, Debug m], Inr False)
         | Inl e \<Rightarrow> ([Validate BoardValidator, Validate BattleShipsValidator], Inl e)
         | Inr _ \<Rightarrow>
           (case BattleShipsQuantityValidator_validate g of
              Inl (ValueError m) \<Rightarrow>
                ([Validate BoardValidator, Validate BattleShipsValidator,
                  Validate BattleShipsQuantityValidator, Debug m], Inr False)
            | Inl e \<Rightarrow>
                ([Validate BoardValidator, Validate BattleShipsValidator,
                  Validate BattleShipsQuantityValidator], Inl e)
            | Inr _ \<Rightarrow>
                ([Validate BoardValidator, Validate BattleShipsValidator,
                  Validate BattleShipsQuantityValidator], Inr True)))) \<and>
   (snd (validate_battlefield g) = Inr True) =
     (BoardValidator_validate g = Inr True \<and> BattleShipsValidator_validate g = Inr True \<and>
      BattleShipsQuantityValidator_validate g = Inr True)"
proof -
  have "(snd (validate_battlefield g) = Inr True) =
     (BoardValidator_validate g = Inr True \<and> BattleShipsValidator_validate g = Inr True \<and>
      BattleShipsQuantityValidator_validate g = Inr True)"
    using BoardValidator_True [of g] BattleShipsValidator_True [of g]
      BattleShipsQuantityValidator_True [of g]
    by (auto simp: validate_battlefield_unfold split: sum.splits error.splits)
  then show ?thesis
    using validate_battlefield_unfold [of g] by blast
qed

text \<open>
  C9. The contact checker has no bound on the length of a run: the square grid whose only
  occupied cells are the five cells (1,2) to (1,6) of row 1 passes
  \<open>BattleShipsValidator.validate\<close>.
\<close>

theorem long_run_passes_contact:
  "square run_of_five \<and>
   occupied_cells run_of_five = [(1, 2), (1, 3), (1, 4), (1, 5), (1, 6)] \<and>
   BattleShipsValidator_validate run_of_five = Inr True"
  by code_simp

section \<open>The fleet counter as the specification describes it\<close>

text \<open>
  The specification's fleet counter, written from its words: a working copy \<open>w\<close> and a
  tally \<open>remaining\<close>, seeded with \<open>5 - L\<close>. A cell "extends as length \<open>L\<close>" along an axis
  when the \<open>L - 1\<close> cells after it on that axis are all occupied (outside the board is
  empty). An occupied cell is attributed the first of the lengths 4, 3, 2 that extends
  vertically or horizontally, else length 1; the trailing cells (offsets \<open>1..L - 1\<close>) of
  every axis that matched at that length are cleared and \<open>remaining L\<close> goes down by one.
  The scan visits the cells in row-major order; the counter succeeds when every
  \<open>remaining L\<close>, \<open>L\<close> in \<open>1..4\<close>, is 0 at the end.
\<close>

definition occupied :: "grid \<Rightarrow> int \<Rightarrow> int \<Rightarrow> bool" where
  "occupied w i j = (status w i j \<noteq> 0)"

definition extends_vertically :: "grid \<Rightarrow> int \<Rightarrow> int \<Rightarrow> int \<Rightarrow> bool" where
  "extends_vertically w i j L = (\<forall>k\<in>{1..L - 1}. occupied w (i + k) j)"

definition extends_horizontally :: "grid \<Rightarrow> int \<Rightarrow> int \<Rightarrow> int \<Rightarrow> bool" where
  "extends_horizontally w i j L = (\<forall>k\<in>{1..L - 1}. occupied w i (j + k))"

definition trailing_vertically :: "int \<Rightarrow> int \<Rightarrow> int \<Rightarrow> int \<Rightarrow> int \<Rightarrow> bool" where
  "trailing_vertically i j L x y = (y = j \<and> i + 1 \<le> x \<and> x \<le> i + (L - 1))"

definition trailing_horizontally :: "int \<Rightarrow> int \<Rightarrow> int \<Rightarrow> int \<Rightarrow> int \<Rightarrow> bool" where
  "trailing_horizontally i j L x y = (x = i \<and> j + 1 \<le> y \<and> y \<le> j + (L - 1))"

definition clear_where :: "(int \<Rightarrow> int \<Rightarrow> bool) \<Rightarrow> grid \<Rightarrow> grid" where
  "clear_where P w =
     map (\<lambda>x. map (\<lambda>y. if P (int x) (int y) then 0 else w ! x ! y) [0..<length (w ! x)])
       [0..<length w]"

definition ship_length_at :: "grid \<Rightarrow> int \<Rightarrow> int \<Rightarrow> int" where
  "ship_length_at w i j =
     (if extends_vertically w i j 4 \<or> extends_horizontally w i j 4 then 4
      else if extends_vertically w i j 3 \<or> extends_horizontally w i j 3 then 3
      else if extends_vertically w i j 2 \<or> extends_horizontally w i j 2 then 2
      else 1)"

fun attribute :: "grid \<times> (int \<Rightarrow> int) \<Rightarrow> nat \<times> nat \<Rightarrow> grid \<times> (int \<Rightarrow> int)" where
  "attribute (w, remaining) (i, j) =
     (if occupied w (int i) (int j) then
        (let L = ship_length_at w (int i) (int j) in
           (clear_where
              (\<lambda>x y. extends_vertically w (int i) (int j) L \<and> trailing_vertically (int i) (int j) L x y \<or>
                     extends_horizontally w (int i) (int j) L \<and> trailing_horizontally (int i) (int j) L x y)
              w,
            remaining(L := remaining L - 1)))
      else (w, remaining))"

definition row_major :: "(nat \<times> nat) list" where
  "row_major = concat (map (\<lambda>i. map (Pair i) [0..<10]) [0..<10])"

definition fleet_scan :: "grid \<Rightarrow> grid \<times> (int \<Rightarrow> int)" where
  "fleet_scan g = foldl attribute (g, \<lambda>L. 5 - L) row_major"

definition fleet_counter :: "grid \<Rightarrow> bool" where
  "fleet_counter g = (\<forall>L\<in>{1..4}. snd (fleet_scan g) L = 0)"

text \<open>The validator object that holds a working copy and a tally.\<close>

definition state_of :: "grid \<times> (int \<Rightarrow> int) \<Rightarrow> quantity_validator" where
  "state_of s = \<lparr>board = fst s, ship_length_to_count = map (\<lambda>L. (L, snd s L)) [1..4]\<rparr>"

section \<open>The quantity validator on a square grid\<close>

lemma grid_eqI:
  assumes "square a" and "square b"
    and "\<And>x y. x < 10 \<Longrightarrow> y < 10 \<Longrightarrow> a ! x ! y = b ! x ! y"
  shows "a = b"
proof (rule nth_equalityI)
  show "length a = length b" using assms(1,2) by (simp add: square_length)
next
  fix x assume "x < length a"
  with assms(1) have x: "x < 10" by (simp add: square_length)
  show "a ! x = b ! x"
  proof (rule nth_equalityI)
    show "length (a ! x) = length (b ! x)" using assms(1,2) x by (simp add: square_row)
  next
    fix y assume "y < length (a ! x)"
    with assms(1) x have "y < 10" by (simp add: square_row)
    with x show "a ! x ! y = b ! x ! y" by (rule assms(3))
  qed
qed

lemma square_clear_where: "square w \<Longrightarrow> square (clear_where P w)"
  by (simp add: square_def clear_where_def list_all_length)

lemma clear_where_nth:
  "square w \<Longrightarrow> x < 10 \<Longrightarrow> y < 10 \<Longrightarrow>
   clear_where P w ! x ! y = (if P (int x) (int y) then 0 else w ! x ! y)"
  by (simp add: clear_where_def square_length square_row)

lemma status_clear_where:
  "square w \<Longrightarrow> status (clear_where P w) x y = (if P x y then 0 else status w x y)"
proof (cases "0 \<le> x \<and> x < 10 \<and> 0 \<le> y \<and> y < 10")
  case True
  assume sq: "square w"
  from True have "nat x < 10" "nat y < 10" "int (nat x) = x" "int (nat y) = y" by auto
  with sq True show ?thesis
    using clear_where_nth [of w "nat x" "nat y" P] by (simp add: status_def)
next
  case False
  then show ?thesis by (auto simp: status_def)
qed

lemma clear_where_twice:
  "square w \<Longrightarrow> clear_where P (clear_where Q w) = clear_where (\<lambda>x y. P x y \<or> Q x y) w"
  by (rule grid_eqI) (simp_all add: square_clear_where clear_where_nth)

lemma clear_where_False: "square w \<Longrightarrow> clear_where (\<lambda>x y. False) w = w"
  by (rule grid_eqI) (simp_all add: square_clear_where clear_where_nth)

lemma clear_where_cong:
  "square w \<Longrightarrow> (\<And>x y. 0 \<le> x \<Longrightarrow> x < 10 \<Longrightarrow> 0 \<le> y \<Longrightarrow> y < 10 \<Longrightarrow> P x y = Q x y) \<Longrightarrow>
   clear_where P w = clear_where Q w"
  by (rule grid_eqI) (simp_all add: square_clear_where clear_where_nth)

lemma store_cell_square:
  assumes "square b" and "0 \<le> x" and "x < 10" and "0 \<le> y" and "y < 10"
  shows "store_cell b x y 0 = Inr (clear_where (\<lambda>p q. p = x \<and> q = y) b)"
proof -
  let ?b' = "b[nat x := (b ! nat x)[nat y := 0]]"
  from assms have s: "store_cell b x y 0 = Inr ?b'"
    by (simp add: store_cell_def getitem_def setitem_def square_length square_row)
  have sq: "square ?b'"
  proof -
    have "length (?b' ! n) = 10" if "n < 10" for n
      using that assms(1) by (cases "n = nat x") (simp_all add: square_length square_row)
    with assms(1) show ?thesis
      by (simp add: square_def list_all_length)
  qed
  have "?b' = clear_where (\<lambda>p q. p = x \<and> q = y) b"
  proof (rule grid_eqI [OF sq square_clear_where [OF assms(1)]])
    fix p q :: nat assume "p < 10" "q < 10"
    with assms show "?b' ! p ! q = clear_where (\<lambda>p q. p = x \<and> q = y) b ! p ! q"
      by (auto simp: clear_where_nth nth_list_update square_length square_row)
  qed
  with s show ?thesis by simp
qed

lemma status_nonzero_bounds: "status w x y \<noteq> 0 \<Longrightarrow> 0 \<le> x \<and> x < 10 \<and> 0 \<le> y \<and> y < 10"
  by (simp add: status_def split: if_splits)

lemma collect_total: "(\<And>x. f x = Inr (h x)) \<Longrightarrow> collect f xs = Inr (map h xs)"
  by (induction xs) simp_all

lemma validate_ship_vertically_square:
  "square b \<Longrightarrow> validate_ship_vertically b i j L = Inr (extends_vertically b i j L)"
  by (simp add: validate_ship_vertically_def extends_vertically_def occupied_def
      collect_total [where h = "\<lambda>k. status b (i + k) j"] get_neighbor_cell_status_square
      list_all_iff)

lemma validate_ship_horizontally_square:
  "square b \<Longrightarrow> validate_ship_horizontally b i j L = Inr (extends_horizontally b i j L)"
  by (simp add: validate_ship_horizontally_def extends_horizontally_def occupied_def
      collect_total [where h = "\<lambda>k. status b i (j + k)"] get_neighbor_cell_status_square
      list_all_iff)

lemma drop_vertically_loop_square:
  "square b \<Longrightarrow> 0 \<le> j \<Longrightarrow> j < 10 \<Longrightarrow> \<forall>k\<in>set ks. 0 \<le> i + k \<and> i + k < 10 \<Longrightarrow>
   drop_vertically_loop b i j ks = Inr (clear_where (\<lambda>x y. y = j \<and> x - i \<in> set ks) b)"
proof (induction ks arbitrary: b)
  case Nil
  then show ?case by (simp add: clear_where_False)
next
  case (Cons k ks)
  let ?b1 = "clear_where (\<lambda>p q. p = i + k \<and> q = j) b"
  from Cons.prems have s: "store_cell b (i + k) j 0 = Inr ?b1"
    by (simp add: store_cell_square)
  have sq: "square ?b1" using Cons.prems(1) by (rule square_clear_where)
  from Cons.prems have "drop_vertically_loop ?b1 i j ks =
      Inr (clear_where (\<lambda>x y. y = j \<and> x - i \<in> set ks) ?b1)"
    by (intro Cons.IH sq) auto
  also have "clear_where (\<lambda>x y. y = j \<and> x - i \<in> set ks) ?b1 =
      clear_where (\<lambda>x y. y = j \<and> x - i \<in> set (k # ks)) b"
    unfolding clear_where_twice [OF Cons.prems(1)]
    by (rule clear_where_cong [OF Cons.prems(1)]) auto
  finally show ?case using s by simp
qed

lemma drop_horizontally_loop_square:
  "square b \<Longrightarrow> 0 \<le> i \<Longrightarrow> i < 10 \<Longrightarrow> \<forall>k\<in>set ks. 0 \<le> j + k \<and> j + k < 10 \<Longrightarrow>
   drop_horizontally_loop b i j ks = Inr (clear_where (\<lambda>x y. x = i \<and> y - j \<in> set ks) b)"
proof (induction ks arbitrary: b)
  case Nil
  then show ?case by (simp add: clear_where_False)
next
  case (Cons k ks)
  let ?b1 = "clear_where (\<lambda>p q. p = i \<and> q = j + k) b"
  from Cons.prems have s: "store_cell b i (j + k) 0 = Inr ?b1"
    by (simp add: store_cell_square)
  have sq: "square ?b1" using Cons.prems(1) by (rule square_clear_where)
  from Cons.prems have "drop_horizontally_loop ?b1 i j ks =
      Inr (clear_where (\<lambda>x y. x = i \<and> y - j \<in> set ks) ?b1)"
    by (intro Cons.IH sq) auto
  also have "clear_where (\<lambda>x y. x = i \<and> y - j \<in> set ks) ?b1 =
      clear_where (\<lambda>x y. x = i \<and> y - j \<in> set (k # ks)) b"
    unfolding clear_where_twice [OF Cons.prems(1)]
    by (rule clear_where_cong [OF Cons.prems(1)]) auto
  finally show ?case using s by simp
qed

lemma drop_vertically_square:
  assumes "square b" and "0 \<le> j" and "j < 10" and "extends_vertically b i j L"
  shows "drop_vertically b i j L = Inr (clear_where (trailing_vertically i j L) b)"
proof -
  have r: "\<forall>k\<in>set [1..L - 1]. 0 \<le> i + k \<and> i + k < 10"
    using assms(4) status_nonzero_bounds [of b _ j]
    by (auto simp: extends_vertically_def occupied_def)
  have "clear_where (\<lambda>x y. y = j \<and> x - i \<in> set [1..L - 1]) b =
      clear_where (trailing_vertically i j L) b"
    by (rule clear_where_cong [OF assms(1)]) (auto simp: trailing_vertically_def)
  with drop_vertically_loop_square [OF assms(1,2,3) r] show ?thesis
    by (simp add: drop_vertically_def)
qed

lemma drop_horizontally_square:
  assumes "square b" and "0 \<le> i" and "i < 10" and "extends_horizontally b i j L"
  shows "drop_horizontally b i j L = Inr (clear_where (trailing_horizontally i j L) b)"
proof -
  have r: "\<forall>k\<in>set [1..L - 1]. 0 \<le> j + k \<and> j + k < 10"
    using assms(4) status_nonzero_bounds [of b i]
    by (auto simp: extends_horizontally_def occupied_def)
  have "clear_where (\<lambda>x y. x = i \<and> y - j \<in> set [1..L - 1]) b =
      clear_where (trailing_horizontally i j L) b"
    by (rule clear_where_cong [OF assms(1)]) (auto simp: trailing_horizontally_def)
  with drop_horizontally_loop_square [OF assms(1,2,3) r] show ?thesis
    by (simp add: drop_horizontally_def)
qed

lemma extends_horizontally_clear_vertical:
  "square b \<Longrightarrow>
   extends_horizontally (clear_where (trailing_vertically i j L) b) i j L' =
   extends_horizontally b i j L'"
  by (simp add: extends_horizontally_def occupied_def status_clear_where trailing_vertically_def)

lemma drop_ship_square:
  assumes "square b" and "0 \<le> i" and "i < 10" and "0 \<le> j" and "j < 10"
  shows "drop_ship b i j L =
     Inr (clear_where
            (\<lambda>x y. extends_vertically b i j L \<and> trailing_vertically i j L x y \<or>
                   extends_horizontally b i j L \<and> trailing_horizontally i j L x y) b,
          extends_vertically b i j L \<or> extends_horizontally b i j L)"
proof -
  let ?v = "extends_vertically b i j L" and ?h = "extends_horizontally b i j L"
  let ?b1 = "if ?v then clear_where (trailing_vertically i j L) b else b"
  have sq1: "square ?b1" using assms(1) by (simp add: square_clear_where)
  have h1: "extends_horizontally ?b1 i j L = ?h"
    using assms(1) by (simp add: extends_horizontally_clear_vertical)
  have d1: "(if ?v then drop_vertically b i j L else Inr b) = Inr ?b1"
    using assms by (simp add: drop_vertically_square)
  have d2: "(if ?h then drop_horizontally ?b1 i j L else Inr ?b1) =
      Inr (if ?h then clear_where (trailing_horizontally i j L) ?b1 else ?b1)"
    using sq1 assms(2,3) h1 drop_horizontally_square [of ?b1 i j L] by auto
  have e: "(if ?h then clear_where (trailing_horizontally i j L) ?b1 else ?b1) =
      clear_where (\<lambda>x y. ?v \<and> trailing_vertically i j L x y \<or>
                         ?h \<and> trailing_horizontally i j L x y) b"
    using assms(1) by (auto simp: clear_where_twice clear_where_False
        intro!: clear_where_cong)
  show ?thesis
    unfolding drop_ship_def
    by (simp add: validate_ship_vertically_square [OF assms(1)] d1
        validate_ship_horizontally_square [OF sq1] h1 d2 e)
qed

lemma upto_1_4: "[1..4] = [1, 2, 3, 4::int]"
  by (simp add: upto.simps)

lemma set_1_4: "{1..4} = {1, 2, 3, 4::int}"
  by auto

lemma decrement_state:
  "L \<in> {1, 2, 3, 4} \<Longrightarrow>
   decrement (map (\<lambda>K. (K, r K)) [1..4]) L = Inr (map (\<lambda>K. (K, (r(L := r L - 1)) K)) [1..4])"
  by (auto simp: decrement_def upto_1_4)

lemma trailing_one [simp]:
  "trailing_vertically i j 1 x y = False" "trailing_horizontally i j 1 x y = False"
  by (auto simp: trailing_vertically_def trailing_horizontally_def)

lemma count_cell_refines:
  assumes "square w" and "i < 10" and "j < 10"
  shows "count_cell (state_of (w, r)) i j = Inr (state_of (attribute (w, r) (i, j)))"
proof (cases "occupied w (int i) (int j)")
  case False
  with assms show ?thesis
    by (simp add: count_cell_def state_of_def inspect_cell_status occupied_def)
next
  case True
  let ?v = "\<lambda>L. extends_vertically w (int i) (int j) L"
  let ?h = "\<lambda>L. extends_horizontally w (int i) (int j) L"
  let ?c = "\<lambda>L. clear_where
      (\<lambda>x y. ?v L \<and> trailing_vertically (int i) (int j) L x y \<or>
             ?h L \<and> trailing_horizontally (int i) (int j) L x y) w"
  have ds: "drop_ship w (int i) (int j) L = Inr (?c L, ?v L \<or> ?h L)" for L
    using assms by (simp add: drop_ship_square)
  have same: "?c L = w" if "\<not> (?v L \<or> ?h L)" for L
    using that assms(1) by (simp add: clear_where_False)
  have one: "?c 1 = w"
    using assms(1) by (simp add: clear_where_False)
  from True assms have ic: "inspect_cell w (int i) (int j) = Inr (status w (int i) (int j))"
    "status w (int i) (int j) \<noteq> 0"
    by (simp_all add: inspect_cell_status occupied_def)
  consider (four) "?v 4 \<or> ?h 4"
    | (three) "\<not> (?v 4 \<or> ?h 4)" "?v 3 \<or> ?h 3"
    | (two) "\<not> (?v 4 \<or> ?h 4)" "\<not> (?v 3 \<or> ?h 3)" "?v 2 \<or> ?h 2"
    | (single) "\<not> (?v 4 \<or> ?h 4)" "\<not> (?v 3 \<or> ?h 3)" "\<not> (?v 2 \<or> ?h 2)"
    by blast
  then show ?thesis
  proof cases
    case four
    then have L: "ship_length_at w (int i) (int j) = 4"
      by (simp add: ship_length_at_def)
    from four True show ?thesis
      unfolding count_cell_def drop_flagman_def
      by (simp add: state_of_def ic ds L decrement_state)
  next
    case three
    then have L: "ship_length_at w (int i) (int j) = 3"
      by (simp add: ship_length_at_def)
    from three True same [of 4] show ?thesis
      unfolding count_cell_def drop_flagman_def drop_cruiser_def
      by (simp add: state_of_def ic ds L decrement_state)
  next
    case two
    then have L: "ship_length_at w (int i) (int j) = 2"
      by (simp add: ship_length_at_def)
    from two True same [of 4] same [of 3] show ?thesis
      unfolding count_cell_def drop_flagman_def drop_cruiser_def drop_destroyer_def
      by (simp add: state_of_def ic ds L decrement_state)
  next
    case single
    then have L: "ship_length_at w (int i) (int j) = 1"
      by (simp add: ship_length_at_def)
    from single True same [of 4] same [of 3] same [of 2] one show ?thesis
      unfolding count_cell_def drop_flagman_def drop_cruiser_def drop_destroyer_def
      by (simp add: state_of_def ic ds L decrement_state)
  qed
qed

lemma square_attribute: "square (fst s) \<Longrightarrow> square (fst (attribute s p))"
  by (cases s; cases p) (simp add: square_clear_where Let_def)

lemma square_foldl_attribute: "square (fst s) \<Longrightarrow> square (fst (foldl attribute s ps))"
  by (induction ps arbitrary: s) (simp_all add: square_attribute)

lemma board_state_of [simp]: "board (state_of s) = fst s"
  by (simp add: state_of_def)

lemma count_inner_refines:
  "square (fst s) \<Longrightarrow> i < 10 \<Longrightarrow> \<forall>j\<in>set js. j < 10 \<Longrightarrow>
   count_inner (state_of s) i js = Inr (state_of (foldl attribute s (map (Pair i) js)))"
proof (induction js arbitrary: s)
  case Nil
  then show ?case by simp
next
  case (Cons j js)
  obtain w r where s: "s = (w, r)" by (cases s)
  from Cons.prems s have c: "count_cell (state_of s) i j = Inr (state_of (attribute s (i, j)))"
    by (simp add: count_cell_refines)
  from Cons.prems have "square (fst (attribute s (i, j)))"
    by (simp add: square_attribute)
  with Cons.IH [of "attribute s (i, j)"] Cons.prems c show ?case by simp
qed

lemma count_outer_refines:
  "square (fst s) \<Longrightarrow> \<forall>i\<in>set is. i < 10 \<Longrightarrow>
   count_outer (state_of s) is =
     Inr (state_of (foldl attribute s (concat (map (\<lambda>i. map (Pair i) [0..<10]) is))))"
proof (induction "is" arbitrary: s)
  case Nil
  then show ?case by simp
next
  case (Cons i "is")
  let ?s1 = "foldl attribute s (map (Pair i) [0..<10])"
  from Cons.prems have c: "count_inner (state_of s) i [0..<10] = Inr (state_of ?s1)"
    by (intro count_inner_refines) auto
  from Cons.prems have "square (fst ?s1)"
    by (simp add: square_foldl_attribute)
  with Cons.IH [of ?s1] Cons.prems c show ?case
    by (simp add: square_row)
qed

lemma init_state_of:
  "BattleShipsQuantityValidator_init g = state_of (g, \<lambda>L. 5 - L)"
  by (simp add: BattleShipsQuantityValidator_init_def state_of_def)

lemma count_outer_scan:
  "square g \<Longrightarrow>
   count_outer (BattleShipsQuantityValidator_init g) [0..<length g] = Inr (state_of (fleet_scan g))"
  using count_outer_refines [of "(g, \<lambda>L. 5 - L)" "[0..<10]"]
  by (simp add: init_state_of fleet_scan_def row_major_def square_length)

lemma quantity_validate_square:
  "square g \<Longrightarrow>
   BattleShipsQuantityValidator_validate g =
     (if fleet_counter g then Inr True else Inl (ValueError ShipsIncorrect))"
  using count_outer_scan [of g]
  by (simp add: BattleShipsQuantityValidator_validate_def Let_def init_state_of
      fleet_counter_def state_of_def upto_1_4 set_1_4 square_length)

text \<open>
  On a 10x10 grid taken as a value, the loops of the quantity validator compute the scan
  the specification describes.
\<close>

lemma fleet_counter_value:
  assumes "square g"
  shows "count_outer (BattleShipsQuantityValidator_init g) [0..<length g] =
           Inr \<lparr>board = fst (fleet_scan g),
                ship_length_to_count = map (\<lambda>L. (L, snd (fleet_scan g) L)) [1..4]\<rparr> \<and>
         BattleShipsQuantityValidator_validate g =
           (if fleet_counter g then Inr True else Inl (ValueError ShipsIncorrect))"
  using assms count_outer_scan [of g] quantity_validate_square [of g]
  by (simp add: state_of_def)

text \<open>
  C10. For every list of lists of integers, \<open>validate_battlefield\<close> returns a boolean: no
  \<open>IndexError\<close> or \<open>KeyError\<close> leaves it.
\<close>

theorem validate_battlefield_total:
  "\<exists>b. snd (validate_battlefield g) = Inr b"
proof (cases "square g")
  case True
  with BattleShipsValidator_outcome [of g] show ?thesis
    by (auto simp: validate_battlefield_unfold BoardValidator_square quantity_validate_square)
next
  case False
  then show ?thesis
    by (auto simp: validate_battlefield_unfold BoardValidator_validate_eq square_def)
qed

section \<open>Fleets\<close>

text \<open>
  A ship is a straight run of cells: its first cell (topmost or leftmost), its axis and its
  length. A legal fleet has the lengths 4, 3, 3, 2, 2, 2, 1, 1, 1, 1, lies on the board, and
  no cell of one ship is equal or adjacent, orthogonally or diagonally, to a cell of
  another. \<open>place ships\<close> is the 10x10 grid whose occupied cells are the cells of the ships.
\<close>

datatype axis = Vertical | Horizontal

record ship =
  ship_row :: nat
  ship_col :: nat
  ship_axis :: axis
  ship_len :: nat

definition ship_cells :: "ship \<Rightarrow> (nat \<times> nat) list" where
  "ship_cells s =
     map (\<lambda>k. case ship_axis s of
                Vertical \<Rightarrow> (ship_row s + k, ship_col s)
              | Horizontal \<Rightarrow> (ship_row s, ship_col s + k))
       [0..<ship_len s]"

definition on_board :: "ship \<Rightarrow> bool" where
  "on_board s = list_all (\<lambda>(x, y). x < 10 \<and> y < 10) (ship_cells s)"

definition apart :: "ship \<Rightarrow> ship \<Rightarrow> bool" where
  "apart s t =
     list_all (\<lambda>(a, b). list_all (\<lambda>(c, d). a + 1 < c \<or> c + 1 < a \<or> b + 1 < d \<or> d + 1 < b)
       (ship_cells t)) (ship_cells s)"

fun all_apart :: "ship list \<Rightarrow> bool" where
  "all_apart [] = True"
| "all_apart (s # rest) = (list_all (apart s) rest \<and> all_apart rest)"

definition legal_fleet :: "ship list \<Rightarrow> bool" where
  "legal_fleet ships =
     (mset (map ship_len ships) = mset [4, 3, 3, 2, 2, 2, 1, 1, 1, 1] \<and>
      list_all on_board ships \<and> all_apart ships)"

definition place :: "ship list \<Rightarrow> grid" where
  "place ships =
     map (\<lambda>x. map (\<lambda>y. if (x, y) \<in> (\<Union>s\<in>set ships. set (ship_cells s)) then 1 else 0) [0..<10])
       [0..<10]"

definition origin :: "ship \<Rightarrow> nat \<times> nat" where
  "origin s = (ship_row s, ship_col s)"

definition no_diagonal :: "grid \<Rightarrow> bool" where
  "no_diagonal g =
     (\<forall>x y. status g x y \<noteq> 0 \<longrightarrow>
        status g (x - 1) (y - 1) = 0 \<and> status g (x - 1) (y + 1) = 0 \<and>
        status g (x + 1) (y - 1) = 0 \<and> status g (x + 1) (y + 1) = 0)"

subsection \<open>A grid without diagonal contact passes the contact checker\<close>

lemma no_diagonal_cell_ok:
  assumes sq: "square g" and bin: "binary g" and nd: "no_diagonal g"
  shows "cell_ok g x y"
proof (cases "status g x y = 0")
  case True
  then show ?thesis by (simp add: cell_ok_def)
next
  case False
  let ?l = "status g (x - 1) y" and ?r = "status g (x + 1) y"
  let ?u = "status g x (y - 1)" and ?d = "status g x (y + 1)"
  have b: "?l = 0 \<or> ?l = 1" "?r = 0 \<or> ?r = 1" "?u = 0 \<or> ?u = 1" "?d = 0 \<or> ?d = 1"
    using sq bin by (simp_all add: binary_status)
  from False nd have cross: "check_if_cross_cells_set_up_correct g x y = Inr True"
    by (simp add: check_cross_square [OF sq] no_diagonal_def)
  have l: "?u = 0 \<and> ?d = 0" if "?l \<noteq> 0"
    using nd that unfolding no_diagonal_def
    by (metis add_diff_cancel_right' diff_add_cancel)
  have r: "?u = 0 \<and> ?d = 0" if "?r \<noteq> 0"
    using nd that unfolding no_diagonal_def
    by (metis add_diff_cancel_right' diff_add_cancel)
  from b l r have "check_if_neighbor_cells_set_up_correct g x y = Inr True"
    by (auto simp: check_neighbor_square [OF sq] Let_def)
  with cross show ?thesis by (simp add: cell_ok_def)
qed

lemma no_diagonal_contact_ok:
  "square g \<Longrightarrow> binary g \<Longrightarrow> no_diagonal g \<Longrightarrow> BattleShipsValidator_validate g = Inr True"
  by (simp add: BattleShipsValidator_ok no_diagonal_cell_ok)

subsection \<open>The cells of a legal fleet\<close>

lemma ship_cells_iff:
  "(x, y) \<in> set (ship_cells s) \<longleftrightarrow>
     (case ship_axis s of
        Vertical \<Rightarrow> y = ship_col s \<and> ship_row s \<le> x \<and> x < ship_row s + ship_len s
      | Horizontal \<Rightarrow> x = ship_row s \<and> ship_col s \<le> y \<and> y < ship_col s + ship_len s)"
proof (cases "ship_axis s")
  case Vertical
  have "(x, y) \<in> (\<lambda>k. (ship_row s + k, ship_col s)) ` {0..<ship_len s} \<longleftrightarrow>
      y = ship_col s \<and> ship_row s \<le> x \<and> x < ship_row s + ship_len s"
    by (auto simp: image_iff intro: bexI [where x = "x - ship_row s"])
  with Vertical show ?thesis by (simp add: ship_cells_def)
next
  case Horizontal
  have "(x, y) \<in> (\<lambda>k. (ship_row s, ship_col s + k)) ` {0..<ship_len s} \<longleftrightarrow>
      x = ship_row s \<and> ship_col s \<le> y \<and> y < ship_col s + ship_len s"
    by (auto simp: image_iff intro: bexI [where x = "y - ship_col s"])
  with Horizontal show ?thesis by (simp add: ship_cells_def)
qed

lemma apart_iff:
  "apart s t \<longleftrightarrow>
     (\<forall>a b c d. (a, b) \<in> set (ship_cells s) \<longrightarrow> (c, d) \<in> set (ship_cells t) \<longrightarrow>
        a + 1 < c \<or> c + 1 < a \<or> b + 1 < d \<or> d + 1 < b)"
  by (auto simp: apart_def list_all_iff)

lemma apart_sym: "apart s t \<Longrightarrow> apart t s"
  unfolding apart_iff by blast

lemma all_apart_near:
  "all_apart ships \<Longrightarrow> s \<in> set ships \<Longrightarrow> t \<in> set ships \<Longrightarrow>
   (a, b) \<in> set (ship_cells s) \<Longrightarrow> (c, d) \<in> set (ship_cells t) \<Longrightarrow>
   a \<le> c + 1 \<Longrightarrow> c \<le> a + 1 \<Longrightarrow> b \<le> d + 1 \<Longrightarrow> d \<le> b + 1 \<Longrightarrow> s = t"
proof (induction ships)
  case Nil
  then show ?case by simp
next
  case (Cons h rest)
  have far: False if "apart u v" "(a, b) \<in> set (ship_cells u)" "(c, d) \<in> set (ship_cells v)" for u v
    using that Cons.prems(6-9) unfolding apart_iff by fastforce
  have far': False if "apart u v" "(c, d) \<in> set (ship_cells u)" "(a, b) \<in> set (ship_cells v)" for u v
    using that Cons.prems(6-9) unfolding apart_iff by fastforce
  from Cons.prems(1) have h: "\<forall>u\<in>set rest. apart h u" and r: "all_apart rest"
    by (simp_all add: list_all_iff)
  show ?case
  proof (cases "s = h")
    case True
    show ?thesis
    proof (cases "t = h")
      case True
      with \<open>s = h\<close> show ?thesis by simp
    next
      case False
      with Cons.prems(3) have "t \<in> set rest" by simp
      with h have "apart h t" by blast
      with far [of h t] True Cons.prems(4,5) show ?thesis by simp
    qed
  next
    case False
    with Cons.prems(2) have s: "s \<in> set rest" by simp
    show ?thesis
    proof (cases "t = h")
      case True
      from s h have "apart h s" by blast
      with far' [of h s] True Cons.prems(4,5) show ?thesis by simp
    next
      case False
      with Cons.prems(3) have "t \<in> set rest" by simp
      with Cons.IH r s Cons.prems(4-9) show ?thesis by blast
    qed
  qed
qed

lemma legal_fleet_len: "legal_fleet ships \<Longrightarrow> s \<in> set ships \<Longrightarrow> ship_len s \<in> {1, 2, 3, 4}"
proof -
  assume a: "legal_fleet ships" "s \<in> set ships"
  then have "ship_len s \<in> set (map ship_len ships)" by simp
  also from a(1) have "set (map ship_len ships) = set [4, 3, 3, 2, 2, 2, 1, 1, 1, 1]"
    unfolding legal_fleet_def by (metis set_mset_mset)
  finally show ?thesis by auto
qed

lemma legal_fleet_on_board:
  "legal_fleet ships \<Longrightarrow> s \<in> set ships \<Longrightarrow> (x, y) \<in> set (ship_cells s) \<Longrightarrow> x < 10 \<and> y < 10"
  by (auto simp: legal_fleet_def on_board_def list_all_iff)

lemma legal_fleet_near:
  "legal_fleet ships \<Longrightarrow> s \<in> set ships \<Longrightarrow> t \<in> set ships \<Longrightarrow>
   (a, b) \<in> set (ship_cells s) \<Longrightarrow> (c, d) \<in> set (ship_cells t) \<Longrightarrow>
   a \<le> c + 1 \<Longrightarrow> c \<le> a + 1 \<Longrightarrow> b \<le> d + 1 \<Longrightarrow> d \<le> b + 1 \<Longrightarrow> s = t"
  using all_apart_near [of ships s t a b c d] by (simp add: legal_fleet_def)

lemma origin_cell: "0 < ship_len s \<Longrightarrow> origin s \<in> set (ship_cells s)"
  by (cases "ship_axis s") (auto simp: origin_def ship_cells_iff)

lemma legal_fleet_origin: "legal_fleet ships \<Longrightarrow> s \<in> set ships \<Longrightarrow> origin s \<in> set (ship_cells s)"
  using legal_fleet_len [of ships s] by (auto intro: origin_cell)

lemma same_line:
  "(a, b) \<in> set (ship_cells s) \<Longrightarrow> (c, d) \<in> set (ship_cells s) \<Longrightarrow> a = c \<or> b = d"
  by (cases "ship_axis s") (auto simp: ship_cells_iff)

subsection \<open>The grid of a legal fleet\<close>

lemma square_place: "square (place ships)"
  by (simp add: square_def place_def list_all_iff)

lemma binary_place: "binary (place ships)"
  by (auto simp: binary_def place_def list_all_iff)

lemma place_nth:
  "x < 10 \<Longrightarrow> y < 10 \<Longrightarrow>
   place ships ! x ! y = (if (x, y) \<in> (\<Union>s\<in>set ships. set (ship_cells s)) then 1 else 0)"
  by (simp add: place_def)

lemma status_place:
  "status (place ships) x y \<noteq> 0 \<longleftrightarrow>
     0 \<le> x \<and> x < 10 \<and> 0 \<le> y \<and> y < 10 \<and> (\<exists>s\<in>set ships. (nat x, nat y) \<in> set (ship_cells s))"
  by (auto simp: status_def place_nth split: if_splits)

lemma no_diagonal_place:
  assumes "legal_fleet ships"
  shows "no_diagonal (place ships)"
proof -
  have False if "status (place ships) x y \<noteq> 0" "status (place ships) x' y' \<noteq> 0"
    and d: "x' = x - 1 \<or> x' = x + 1" "y' = y - 1 \<or> y' = y + 1" for x y x' y'
  proof -
    from that(1) obtain s where s: "s \<in> set ships" "(nat x, nat y) \<in> set (ship_cells s)"
      and xy: "0 \<le> x" "0 \<le> y"
      unfolding status_place by blast
    from that(2) obtain t where t: "t \<in> set ships" "(nat x', nat y') \<in> set (ship_cells t)"
      and xy': "0 \<le> x'" "0 \<le> y'"
      unfolding status_place by blast
    from d xy xy' have "nat x \<le> nat x' + 1" "nat x' \<le> nat x + 1" "nat y \<le> nat y' + 1"
      "nat y' \<le> nat y + 1" by auto
    with legal_fleet_near [OF assms s(1) t(1) s(2) t(2)] have "s = t" by simp
    with same_line [OF s(2)] t(2) have "nat x = nat x' \<or> nat y = nat y'" by simp
    with d xy xy' show False by auto
  qed
  then show ?thesis
    unfolding no_diagonal_def by blast
qed

lemma legal_fleet_contact_ok:
  "legal_fleet ships \<Longrightarrow> BattleShipsValidator_validate (place ships) = Inr True"
  by (simp add: no_diagonal_contact_ok square_place binary_place no_diagonal_place)

subsection \<open>The scan over the grid of a legal fleet\<close>

text \<open>
  After the scan has passed the first \<open>n\<close> cells in row-major order, a cell of the working
  copy is occupied when it is the first cell of its ship, or when the scan has not reached
  the first cell of its ship yet; and the tally has gone down by one for each ship whose
  first cell the scan has passed.
\<close>

definition idx :: "nat \<times> nat \<Rightarrow> nat" where
  "idx c = 10 * fst c + snd c"

definition cover :: "ship list \<Rightarrow> nat \<Rightarrow> nat \<times> nat \<Rightarrow> bool" where
  "cover ships n c =
     (\<exists>s\<in>set ships. c \<in> set (ship_cells s) \<and> (c = origin s \<or> n \<le> idx (origin s)))"

definition scan_inv :: "ship list \<Rightarrow> nat \<Rightarrow> grid \<times> (int \<Rightarrow> int) \<Rightarrow> bool" where
  "scan_inv ships n s =
     (square (fst s) \<and>
      (\<forall>x<10. \<forall>y<10. fst s ! x ! y = (if cover ships n (x, y) then 1 else 0)) \<and>
      (\<forall>L. snd s L =
         5 - L - int (card {t \<in> set ships. int (ship_len t) = L \<and> idx (origin t) < n})))"

lemma idx_origin_le: "(x, y) \<in> set (ship_cells t) \<Longrightarrow> idx (origin t) \<le> idx (x, y)"
  by (cases "ship_axis t") (auto simp: ship_cells_iff idx_def origin_def)

lemma idx_origin_eq:
  "(x, y) \<in> set (ship_cells t) \<Longrightarrow> idx (origin t) = idx (x, y) \<Longrightarrow> origin t = (x, y)"
  by (cases "ship_axis t") (auto simp: ship_cells_iff idx_def origin_def)

lemma origin_unique:
  assumes "legal_fleet ships" and "s \<in> set ships" and "t \<in> set ships" and "origin s = origin t"
  shows "s = t"
proof -
  obtain a b where ab: "origin s = (a, b)" by (cases "origin s")
  with assms legal_fleet_origin [of ships s] legal_fleet_origin [of ships t]
  have "(a, b) \<in> set (ship_cells s)" "(a, b) \<in> set (ship_cells t)" by simp_all
  with legal_fleet_near [OF assms(1,2,3)] show ?thesis by simp
qed

lemma idx_inj: "b < 10 \<Longrightarrow> d < 10 \<Longrightarrow> idx (a, b) = idx (c, d) \<Longrightarrow> a = c \<and> b = d"
  by (simp add: idx_def) arith

lemma origin_idx:
  assumes "legal_fleet ships" and "t \<in> set ships" and "j < 10" and "idx (origin t) = idx (i, j)"
  shows "origin t = (i, j)"
proof -
  obtain a b where ab: "origin t = (a, b)" by (cases "origin t")
  with legal_fleet_origin [OF assms(1,2)] legal_fleet_on_board [OF assms(1,2)] have "b < 10"
    by auto
  with idx_inj [of b j a i] assms(3,4) ab show ?thesis by simp
qed

lemma scan_inv_cell:
  "scan_inv ships n (w, r) \<Longrightarrow> x < 10 \<Longrightarrow> y < 10 \<Longrightarrow> w ! x ! y \<noteq> 0 \<longleftrightarrow> cover ships n (x, y)"
  by (simp add: scan_inv_def)

lemma cover_near:
  assumes "legal_fleet ships" and "s \<in> set ships" and "(a, b) \<in> set (ship_cells s)"
    and "cover ships n (c, d)"
    and "a \<le> c + 1" "c \<le> a + 1" "b \<le> d + 1" "d \<le> b + 1"
  shows "(c, d) \<in> set (ship_cells s)"
proof -
  from assms(4) obtain t where t: "t \<in> set ships" "(c, d) \<in> set (ship_cells t)"
    unfolding cover_def by blast
  with legal_fleet_near [OF assms(1,2) t(1) assms(3) t(2)] assms(5-8) show ?thesis by simp
qed

lemma extends_vertically_nat:
  assumes "square w" and "i < 10" and "j < 10"
  shows "extends_vertically w (int i) (int j) (int l) \<longleftrightarrow>
         (\<forall>k. 1 \<le> k \<and> k < l \<longrightarrow> i + k < 10 \<and> w ! (i + k) ! j \<noteq> 0)"
proof
  assume e: "extends_vertically w (int i) (int j) (int l)"
  show "\<forall>k. 1 \<le> k \<and> k < l \<longrightarrow> i + k < 10 \<and> w ! (i + k) ! j \<noteq> 0"
  proof (intro allI impI)
    fix k assume "1 \<le> k \<and> k < l"
    then have "int k \<in> {1..int l - 1}" by auto
    with e have "status w (int i + int k) (int j) \<noteq> 0"
      unfolding extends_vertically_def occupied_def by blast
    then have "status w (int (i + k)) (int j) \<noteq> 0" by simp
    then show "i + k < 10 \<and> w ! (i + k) ! j \<noteq> 0"
      unfolding status_def by (auto simp: nat_int_add split: if_splits)
  qed
next
  assume a: "\<forall>k. 1 \<le> k \<and> k < l \<longrightarrow> i + k < 10 \<and> w ! (i + k) ! j \<noteq> 0"
  show "extends_vertically w (int i) (int j) (int l)"
    unfolding extends_vertically_def occupied_def
  proof
    fix k assume k: "k \<in> {1..int l - 1}"
    then have "1 \<le> nat k \<and> nat k < l" by auto
    with a have "i + nat k < 10 \<and> w ! (i + nat k) ! j \<noteq> 0" by blast
    moreover from k have "int i + k = int (i + nat k)" by auto
    ultimately show "status w (int i + k) (int j) \<noteq> 0"
      using assms(3) unfolding status_def by (simp del: of_nat_add)
  qed
qed

lemma extends_horizontally_nat:
  assumes "square w" and "i < 10" and "j < 10"
  shows "extends_horizontally w (int i) (int j) (int l) \<longleftrightarrow>
         (\<forall>k. 1 \<le> k \<and> k < l \<longrightarrow> j + k < 10 \<and> w ! i ! (j + k) \<noteq> 0)"
proof
  assume e: "extends_horizontally w (int i) (int j) (int l)"
  show "\<forall>k. 1 \<le> k \<and> k < l \<longrightarrow> j + k < 10 \<and> w ! i ! (j + k) \<noteq> 0"
  proof (intro allI impI)
    fix k assume "1 \<le> k \<and> k < l"
    then have "int k \<in> {1..int l - 1}" by auto
    with e have "status w (int i) (int j + int k) \<noteq> 0"
      unfolding extends_horizontally_def occupied_def by blast
    then have "status w (int i) (int (j + k)) \<noteq> 0" by simp
    then show "j + k < 10 \<and> w ! i ! (j + k) \<noteq> 0"
      unfolding status_def by (auto simp: nat_int_add split: if_splits)
  qed
next
  assume a: "\<forall>k. 1 \<le> k \<and> k < l \<longrightarrow> j + k < 10 \<and> w ! i ! (j + k) \<noteq> 0"
  show "extends_horizontally w (int i) (int j) (int l)"
    unfolding extends_horizontally_def occupied_def
  proof
    fix k assume k: "k \<in> {1..int l - 1}"
    then have "1 \<le> nat k \<and> nat k < l" by auto
    with a have "j + nat k < 10 \<and> w ! i ! (j + nat k) \<noteq> 0" by blast
    moreover from k have "int j + k = int (j + nat k)" by auto
    ultimately show "status w (int i) (int j + k) \<noteq> 0"
      using assms(2) unfolding status_def by (simp del: of_nat_add)
  qed
qed

lemma extends_vertically_origin:
  assumes legal: "legal_fleet ships" and inv: "scan_inv ships n (w, r)"
    and s: "s \<in> set ships" "origin s = (i, j)" and n: "n \<le> idx (i, j)" and l: "2 \<le> l"
  shows "extends_vertically w (int i) (int j) (int l) \<longleftrightarrow>
         ship_axis s = Vertical \<and> l \<le> ship_len s"
proof -
  from inv have sq: "square w" by (simp add: scan_inv_def)
  from legal_fleet_origin [OF legal s(1)] s(2) have o: "(i, j) \<in> set (ship_cells s)" by simp
  with legal_fleet_on_board [OF legal s(1)] have ij: "i < 10" "j < 10" by auto
  from s(2) have rc: "ship_row s = i" "ship_col s = j" by (simp_all add: origin_def)
  from legal_fleet_len [OF legal s(1)] have len: "1 \<le> ship_len s" by auto
  show ?thesis
    unfolding extends_vertically_nat [OF sq ij]
  proof
    assume a: "\<forall>k. 1 \<le> k \<and> k < l \<longrightarrow> i + k < 10 \<and> w ! (i + k) ! j \<noteq> 0"
    show "ship_axis s = Vertical \<and> l \<le> ship_len s"
    proof (cases "ship_axis s")
      case Vertical
      have "l \<le> ship_len s"
      proof (rule ccontr)
        assume "\<not> l \<le> ship_len s"
        with len a have k: "i + ship_len s < 10" "w ! (i + ship_len s) ! j \<noteq> 0" by auto
        with scan_inv_cell [OF inv k(1) ij(2)] have "cover ships n (i + ship_len s, j)" by simp
        moreover from Vertical rc len have "(i + ship_len s - 1, j) \<in> set (ship_cells s)"
          by (simp add: ship_cells_iff)
        ultimately have "(i + ship_len s, j) \<in> set (ship_cells s)"
          using cover_near [OF legal s(1)] by auto
        with Vertical rc show False by (simp add: ship_cells_iff)
      qed
      with Vertical show ?thesis by simp
    next
      case Horizontal
      from l a have k: "i + 1 < 10" "w ! (i + 1) ! j \<noteq> 0" by auto
      with scan_inv_cell [OF inv k(1) ij(2)] have "cover ships n (i + 1, j)" by simp
      with o have "(i + 1, j) \<in> set (ship_cells s)"
        using cover_near [OF legal s(1)] by auto
      with Horizontal rc show ?thesis by (simp add: ship_cells_iff)
    qed
  next
    assume a: "ship_axis s = Vertical \<and> l \<le> ship_len s"
    show "\<forall>k. 1 \<le> k \<and> k < l \<longrightarrow> i + k < 10 \<and> w ! (i + k) ! j \<noteq> 0"
    proof (intro allI impI)
      fix k assume k: "1 \<le> k \<and> k < l"
      with a rc have c: "(i + k, j) \<in> set (ship_cells s)" by (simp add: ship_cells_iff)
      with legal_fleet_on_board [OF legal s(1)] have b: "i + k < 10" by auto
      from c s n have "cover ships n (i + k, j)" unfolding cover_def by auto
      with scan_inv_cell [OF inv b ij(2)] b show "i + k < 10 \<and> w ! (i + k) ! j \<noteq> 0" by simp
    qed
  qed
qed

lemma extends_horizontally_origin:
  assumes legal: "legal_fleet ships" and inv: "scan_inv ships n (w, r)"
    and s: "s \<in> set ships" "origin s = (i, j)" and n: "n \<le> idx (i, j)" and l: "2 \<le> l"
  shows "extends_horizontally w (int i) (int j) (int l) \<longleftrightarrow>
         ship_axis s = Horizontal \<and> l \<le> ship_len s"
proof -
  from inv have sq: "square w" by (simp add: scan_inv_def)
  from legal_fleet_origin [OF legal s(1)] s(2) have o: "(i, j) \<in> set (ship_cells s)" by simp
  with legal_fleet_on_board [OF legal s(1)] have ij: "i < 10" "j < 10" by auto
  from s(2) have rc: "ship_row s = i" "ship_col s = j" by (simp_all add: origin_def)
  from legal_fleet_len [OF legal s(1)] have len: "1 \<le> ship_len s" by auto
  show ?thesis
    unfolding extends_horizontally_nat [OF sq ij]
  proof
    assume a: "\<forall>k. 1 \<le> k \<and> k < l \<longrightarrow> j + k < 10 \<and> w ! i ! (j + k) \<noteq> 0"
    show "ship_axis s = Horizontal \<and> l \<le> ship_len s"
    proof (cases "ship_axis s")
      case Horizontal
      have "l \<le> ship_len s"
      proof (rule ccontr)
        assume "\<not> l \<le> ship_len s"
        with len a have k: "j + ship_len s < 10" "w ! i ! (j + ship_len s) \<noteq> 0" by auto
        with scan_inv_cell [OF inv ij(1) k(1)] have "cover ships n (i, j + ship_len s)" by simp
        moreover from Horizontal rc len have "(i, j + ship_len s - 1) \<in> set (ship_cells s)"
          by (simp add: ship_cells_iff)
        ultimately have "(i, j + ship_len s) \<in> set (ship_cells s)"
          using cover_near [OF legal s(1)] by auto
        with Horizontal rc show False by (simp add: ship_cells_iff)
      qed
      with Horizontal show ?thesis by simp
    next
      case Vertical
      from l a have k: "j + 1 < 10" "w ! i ! (j + 1) \<noteq> 0" by auto
      with scan_inv_cell [OF inv ij(1) k(1)] have "cover ships n (i, j + 1)" by simp
      with o have "(i, j + 1) \<in> set (ship_cells s)"
        using cover_near [OF legal s(1)] by auto
      with Vertical rc show ?thesis by (simp add: ship_cells_iff)
    qed
  next
    assume a: "ship_axis s = Horizontal \<and> l \<le> ship_len s"
    show "\<forall>k. 1 \<le> k \<and> k < l \<longrightarrow> j + k < 10 \<and> w ! i ! (j + k) \<noteq> 0"
    proof (intro allI impI)
      fix k assume k: "1 \<le> k \<and> k < l"
      with a rc have c: "(i, j + k) \<in> set (ship_cells s)" by (simp add: ship_cells_iff)
      with legal_fleet_on_board [OF legal s(1)] have b: "j + k < 10" by auto
      from c s n have "cover ships n (i, j + k)" unfolding cover_def by auto
      with scan_inv_cell [OF inv ij(1) b] b show "j + k < 10 \<and> w ! i ! (j + k) \<noteq> 0" by simp
    qed
  qed
qed

lemma attribute_origin:
  assumes legal: "legal_fleet ships" and inv: "scan_inv ships n (w, r)"
    and s: "s \<in> set ships" "origin s = (i, j)" and n: "n \<le> idx (i, j)"
  shows "attribute (w, r) (i, j) =
           (clear_where (\<lambda>x y. 0 \<le> x \<and> 0 \<le> y \<and> (nat x, nat y) \<in> set (ship_cells s) \<and>
                               (nat x, nat y) \<noteq> (i, j)) w,
            r(int (ship_len s) := r (int (ship_len s)) - 1))"
proof -
  from inv have sq: "square w" by (simp add: scan_inv_def)
  from legal_fleet_origin [OF legal s(1)] s(2) have o: "(i, j) \<in> set (ship_cells s)" by simp
  with legal_fleet_on_board [OF legal s(1)] have ij: "i < 10" "j < 10" by auto
  from s(2) have rc: "ship_row s = i" "ship_col s = j" by (simp_all add: origin_def)
  from legal_fleet_len [OF legal s(1)] have len: "ship_len s \<in> {1, 2, 3, 4}" .
  from o s have "cover ships n (i, j)" unfolding cover_def by auto
  with scan_inv_cell [OF inv ij] ij have occ: "occupied w (int i) (int j)"
    by (simp add: occupied_def status_def)
  note ev = extends_vertically_origin [OF legal inv s n]
  note eh = extends_horizontally_origin [OF legal inv s n]
  have v: "extends_vertically w (int i) (int j) 4 \<longleftrightarrow> ship_axis s = Vertical \<and> 4 \<le> ship_len s"
    "extends_vertically w (int i) (int j) 3 \<longleftrightarrow> ship_axis s = Vertical \<and> 3 \<le> ship_len s"
    "extends_vertically w (int i) (int j) 2 \<longleftrightarrow> ship_axis s = Vertical \<and> 2 \<le> ship_len s"
    using ev [of 4] ev [of 3] ev [of 2] by simp_all
  have h: "extends_horizontally w (int i) (int j) 4 \<longleftrightarrow> ship_axis s = Horizontal \<and> 4 \<le> ship_len s"
    "extends_horizontally w (int i) (int j) 3 \<longleftrightarrow> ship_axis s = Horizontal \<and> 3 \<le> ship_len s"
    "extends_horizontally w (int i) (int j) 2 \<longleftrightarrow> ship_axis s = Horizontal \<and> 2 \<le> ship_len s"
    using eh [of 4] eh [of 3] eh [of 2] by simp_all
  have L: "ship_length_at w (int i) (int j) = int (ship_len s)"
    using len by (cases "ship_axis s") (auto simp: ship_length_at_def v h)
  let ?L = "int (ship_len s)"
  have c: "clear_where
      (\<lambda>x y. extends_vertically w (int i) (int j) ?L \<and> trailing_vertically (int i) (int j) ?L x y \<or>
             extends_horizontally w (int i) (int j) ?L \<and> trailing_horizontally (int i) (int j) ?L x y) w =
    clear_where (\<lambda>x y. 0 \<le> x \<and> 0 \<le> y \<and> (nat x, nat y) \<in> set (ship_cells s) \<and>
                       (nat x, nat y) \<noteq> (i, j)) w"
  proof (rule clear_where_cong [OF sq])
    fix x y :: int assume xy: "0 \<le> x" "x < 10" "0 \<le> y" "y < 10"
    show "(extends_vertically w (int i) (int j) ?L \<and> trailing_vertically (int i) (int j) ?L x y \<or>
           extends_horizontally w (int i) (int j) ?L \<and> trailing_horizontally (int i) (int j) ?L x y) =
          (0 \<le> x \<and> 0 \<le> y \<and> (nat x, nat y) \<in> set (ship_cells s) \<and> (nat x, nat y) \<noteq> (i, j))"
    proof (cases "ship_len s = 1")
      case True
      with rc xy show ?thesis
        by (cases "ship_axis s") (auto simp: ship_cells_iff)
    next
      case False
      with len have l2: "2 \<le> ship_len s" by auto
      from ev [OF l2] eh [OF l2] rc xy l2 show ?thesis
        by (cases "ship_axis s")
          (auto simp: ship_cells_iff trailing_vertically_def trailing_horizontally_def)
    qed
  qed
  from occ L c show ?thesis by (simp add: Let_def)
qed

lemma cover_Suc_origin:
  assumes legal: "legal_fleet ships" and s: "s \<in> set ships" "origin s = (i, j)" and j: "j < 10"
  shows "cover ships (Suc (idx (i, j))) c \<longleftrightarrow>
         cover ships (idx (i, j)) c \<and> \<not> (c \<in> set (ship_cells s) \<and> c \<noteq> (i, j))"
proof
  assume "cover ships (Suc (idx (i, j))) c"
  then obtain t where t: "t \<in> set ships" "c \<in> set (ship_cells t)"
    "c = origin t \<or> Suc (idx (i, j)) \<le> idx (origin t)"
    unfolding cover_def by blast
  then have c: "cover ships (idx (i, j)) c" unfolding cover_def by auto
  have "c = (i, j)" if "c \<in> set (ship_cells s)"
  proof -
    obtain a b where ab: "c = (a, b)" by (cases c)
    with legal_fleet_near [OF legal s(1) t(1), of a b a b] that t(2) have "s = t" by simp
    with t(3) s(2) show ?thesis by auto
  qed
  with c show "cover ships (idx (i, j)) c \<and> \<not> (c \<in> set (ship_cells s) \<and> c \<noteq> (i, j))"
    by blast
next
  assume a: "cover ships (idx (i, j)) c \<and> \<not> (c \<in> set (ship_cells s) \<and> c \<noteq> (i, j))"
  then obtain t where t: "t \<in> set ships" "c \<in> set (ship_cells t)"
    "c = origin t \<or> idx (i, j) \<le> idx (origin t)"
    unfolding cover_def by blast
  show "cover ships (Suc (idx (i, j))) c"
  proof (cases "c = origin t \<or> Suc (idx (i, j)) \<le> idx (origin t)")
    case True
    with t show ?thesis unfolding cover_def by blast
  next
    case False
    with t(3) have "idx (origin t) = idx (i, j)" by auto
    with origin_idx [OF legal t(1) j] have "origin t = (i, j)" by simp
    with origin_unique [OF legal s(1) t(1)] s(2) have "s = t" by simp
    with a t(2) \<open>origin t = (i, j)\<close> False show ?thesis by auto
  qed
qed

lemma cover_Suc_other:
  assumes legal: "legal_fleet ships" and no: "\<forall>s\<in>set ships. origin s \<noteq> (i, j)" and j: "j < 10"
  shows "cover ships (Suc (idx (i, j))) c \<longleftrightarrow> cover ships (idx (i, j)) c"
proof -
  have "idx (origin t) \<noteq> idx (i, j)" if "t \<in> set ships" for t
    using origin_idx [OF legal that j] no that by blast
  then have "Suc (idx (i, j)) \<le> idx (origin t) \<longleftrightarrow> idx (i, j) \<le> idx (origin t)"
    if "t \<in> set ships" for t
    using that by (metis Suc_leD Suc_leI le_neq_implies_less)
  then show ?thesis unfolding cover_def by blast
qed

lemma passed_split:
  assumes legal: "legal_fleet ships" and s: "s \<in> set ships" "origin s = (i, j)" and j: "j < 10"
  shows "{t \<in> set ships. int (ship_len t) = K \<and> idx (origin t) < Suc (idx (i, j))} =
         (if int (ship_len s) = K
          then insert s {t \<in> set ships. int (ship_len t) = K \<and> idx (origin t) < idx (i, j)}
          else {t \<in> set ships. int (ship_len t) = K \<and> idx (origin t) < idx (i, j)})"
proof -
  have u: "t = s" if "t \<in> set ships" "idx (origin t) = idx (i, j)" for t
    using origin_idx [OF legal that(1) j that(2)] origin_unique [OF legal s(1) that(1)] s(2)
    by simp
  have split: "{t \<in> set ships. int (ship_len t) = K \<and> idx (origin t) < Suc (idx (i, j))} =
      {t \<in> set ships. int (ship_len t) = K \<and> idx (origin t) = idx (i, j)} \<union>
      {t \<in> set ships. int (ship_len t) = K \<and> idx (origin t) < idx (i, j)}"
    by (auto simp: less_Suc_eq)
  have "{t \<in> set ships. int (ship_len t) = K \<and> idx (origin t) = idx (i, j)} =
      (if int (ship_len s) = K then {s} else {})"
  proof (cases "int (ship_len s) = K")
    case True
    have "t \<in> {t \<in> set ships. int (ship_len t) = K \<and> idx (origin t) = idx (i, j)} \<longleftrightarrow> t = s" for t
      using u [of t] s True by (cases "t = s") auto
    then show ?thesis using True by (simp add: set_eq_iff)
  next
    case False
    have "t \<notin> {t \<in> set ships. int (ship_len t) = K \<and> idx (origin t) = idx (i, j)}" for t
      using u [of t] False by (cases "t = s") auto
    then show ?thesis using False by (simp add: set_eq_iff)
  qed
  with split show ?thesis by simp
qed

lemma cells_after_origin:
  assumes sq: "square w" and xy: "x < 10" "y < 10"
    and w: "w ! x ! y = (if C then 1 else 0)"
    and cv: "D \<longleftrightarrow> C \<and> \<not> ((x, y) \<in> set (ship_cells s) \<and> (x, y) \<noteq> (i, j))"
  shows "clear_where (\<lambda>x y. 0 \<le> x \<and> 0 \<le> y \<and> (nat x, nat y) \<in> set (ship_cells s) \<and>
            (nat x, nat y) \<noteq> (i, j)) w ! x ! y = (if D then 1 else 0)"
proof -
  let ?P = "\<lambda>x y. 0 \<le> x \<and> 0 \<le> y \<and> (nat x, nat y) \<in> set (ship_cells s) \<and> (nat x, nat y) \<noteq> (i, j)"
  have c: "clear_where ?P w ! x ! y = (if ?P (int x) (int y) then 0 else w ! x ! y)"
    using sq xy by (rule clear_where_nth)
  have p: "?P (int x) (int y) \<longleftrightarrow> (x, y) \<in> set (ship_cells s) \<and> (x, y) \<noteq> (i, j)"
    by simp
  show ?thesis
    unfolding c p w cv by (cases C; cases "(x, y) \<in> set (ship_cells s)"; cases "(x, y) = (i, j)") simp_all
qed

lemma scan_step:
  assumes legal: "legal_fleet ships" and inv: "scan_inv ships (idx (i, j)) (w, r)"
    and ij: "i < 10" "j < 10"
  shows "scan_inv ships (Suc (idx (i, j))) (attribute (w, r) (i, j))"
proof (cases "\<exists>s\<in>set ships. origin s = (i, j)")
  case True
  then obtain s where s: "s \<in> set ships" "origin s = (i, j)" by blast
  let ?P = "\<lambda>x y. 0 \<le> x \<and> 0 \<le> y \<and> (nat x, nat y) \<in> set (ship_cells s) \<and> (nat x, nat y) \<noteq> (i, j)"
  let ?L = "int (ship_len s)"
  from inv have sq: "square w" by (simp add: scan_inv_def)
  have a: "attribute (w, r) (i, j) = (clear_where ?P w, r(?L := r ?L - 1))"
    using attribute_origin [OF legal inv s] by simp
  have cells: "clear_where ?P w ! x ! y = (if cover ships (Suc (idx (i, j))) (x, y) then 1 else 0)"
    if "x < 10" "y < 10" for x y
  proof -
    from inv that have "w ! x ! y = (if cover ships (idx (i, j)) (x, y) then 1 else 0)"
      by (simp add: scan_inv_def)
    then show ?thesis
      using cover_Suc_origin [OF legal s ij(2), of "(x, y)"]
      by (intro cells_after_origin [OF sq that])
  qed
  have tally: "(r(?L := r ?L - 1)) K =
      5 - K - int (card {t \<in> set ships. int (ship_len t) = K \<and> idx (origin t) < Suc (idx (i, j))})"
    for K
  proof -
    let ?A = "{t \<in> set ships. int (ship_len t) = K \<and> idx (origin t) < idx (i, j)}"
    have fin: "finite ?A" by simp
    have notin: "s \<notin> ?A" using s(2) by simp
    have eq: "{t \<in> set ships. int (ship_len t) = K \<and> idx (origin t) < Suc (idx (i, j))} =
        (if ?L = K then insert s ?A else ?A)"
      by (rule passed_split [OF legal s ij(2)])
    from inv have rK: "r K = 5 - K - int (card ?A)" by (simp add: scan_inv_def)
    show ?thesis
    proof (cases "?L = K")
      case True
      with fin notin rK show ?thesis unfolding eq by simp
    next
      case False
      with rK show ?thesis unfolding eq by simp
    qed
  qed
  show ?thesis
    unfolding a scan_inv_def fst_conv snd_conv
  proof (intro conjI allI impI)
    show "square (clear_where ?P w)" by (rule square_clear_where [OF sq])
    show "clear_where ?P w ! x ! y = (if cover ships (Suc (idx (i, j))) (x, y) then 1 else 0)"
      if "x < 10" "y < 10" for x y
      using that by (rule cells)
    show "(r(?L := r ?L - 1)) K =
        5 - K - int (card {t \<in> set ships. int (ship_len t) = K \<and> idx (origin t) < Suc (idx (i, j))})"
      for K
      by (rule tally)
  qed
next
  case False
  then have no: "\<forall>s\<in>set ships. origin s \<noteq> (i, j)" by blast
  have "\<not> cover ships (idx (i, j)) (i, j)"
  proof
    assume "cover ships (idx (i, j)) (i, j)"
    then obtain t where t: "t \<in> set ships" "(i, j) \<in> set (ship_cells t)"
      "(i, j) = origin t \<or> idx (i, j) \<le> idx (origin t)"
      unfolding cover_def by blast
    with idx_origin_le [OF t(2)] have "(i, j) = origin t \<or> idx (origin t) = idx (i, j)" by auto
    with idx_origin_eq [OF t(2)] have "origin t = (i, j)" by auto
    with no t(1) show False by blast
  qed
  with scan_inv_cell [OF inv ij] ij have "\<not> occupied w (int i) (int j)"
    by (simp add: occupied_def status_def)
  then have a: "attribute (w, r) (i, j) = (w, r)" by simp
  have "idx (origin t) < Suc (idx (i, j)) \<longleftrightarrow> idx (origin t) < idx (i, j)" if "t \<in> set ships" for t
    using origin_idx [OF legal that ij(2)] no that by (auto simp: less_Suc_eq)
  then have "{t \<in> set ships. int (ship_len t) = K \<and> idx (origin t) < Suc (idx (i, j))} =
      {t \<in> set ships. int (ship_len t) = K \<and> idx (origin t) < idx (i, j)}" for K
    by blast
  then have same: "{t \<in> set ships. int (ship_len t) = K \<and> idx (origin t) < Suc (idx (i, j))} =
      {t \<in> set ships. int (ship_len t) = K \<and> idx (origin t) < idx (i, j)}" for K .
  from inv show ?thesis
    unfolding a scan_inv_def same cover_Suc_other [OF legal no ij(2)] .
qed

lemma row_major_index: "row_major = map (\<lambda>n. (n div 10, n mod 10)) [0..<100]"
  by code_simp

lemma scan_start:
  assumes "legal_fleet ships"
  shows "scan_inv ships 0 (place ships, \<lambda>L. 5 - L)"
proof -
  have "cover ships 0 c \<longleftrightarrow> c \<in> (\<Union>s\<in>set ships. set (ship_cells s))" for c
    unfolding cover_def by auto
  then show ?thesis
    by (simp add: scan_inv_def square_place place_nth)
qed

lemma scan_prefix:
  assumes "legal_fleet ships"
  shows "k \<le> 100 \<Longrightarrow>
    scan_inv ships k (foldl attribute (place ships, \<lambda>L. 5 - L) (map (\<lambda>n. (n div 10, n mod 10)) [0..<k]))"
proof (induction k)
  case 0
  then show ?case using scan_start [OF assms] by simp
next
  case (Suc k)
  let ?s = "foldl attribute (place ships, \<lambda>L. 5 - L) (map (\<lambda>n. (n div 10, n mod 10)) [0..<k])"
  obtain w r where wr: "?s = (w, r)" by (cases ?s)
  have i: "idx (k div 10, k mod 10) = k" by (simp add: idx_def)
  from Suc have b: "k div 10 < 10" "k mod 10 < 10" by auto
  from Suc wr i have "scan_inv ships (idx (k div 10, k mod 10)) (w, r)" by simp
  from scan_step [OF assms this b] i wr show ?case by simp
qed

lemma all_apart_distinct: "all_apart ships \<Longrightarrow> \<forall>s\<in>set ships. 0 < ship_len s \<Longrightarrow> distinct ships"
proof (induction ships)
  case Nil
  then show ?case by simp
next
  case (Cons h rest)
  have "h \<notin> set rest"
  proof
    assume "h \<in> set rest"
    with Cons.prems(1) have "apart h h" by (simp add: list_all_iff)
    moreover from Cons.prems(2) have "origin h \<in> set (ship_cells h)" by (simp add: origin_cell)
    ultimately show False unfolding apart_iff by (cases "origin h") fastforce
  qed
  with Cons show ?case by simp
qed

lemma legal_fleet_count:
  assumes legal: "legal_fleet ships" and K: "1 \<le> K"
  shows "card {t \<in> set ships. int (ship_len t) = K \<and> idx (origin t) < 100} =
         count (mset [4, 3, 3, 2, 2, 2, 1, 1, 1, 1]) (nat K)"
proof -
  have "0 < ship_len t" if "t \<in> set ships" for t
    using legal_fleet_len [OF legal that] by auto
  with legal have d: "distinct ships"
    by (intro all_apart_distinct) (simp_all add: legal_fleet_def)
  have o: "idx (origin t) < 100" if "t \<in> set ships" for t
  proof -
    obtain a b where ab: "origin t = (a, b)" by (cases "origin t")
    with legal_fleet_origin [OF legal that] legal_fleet_on_board [OF legal that] have "a < 10" "b < 10"
      by auto
    with ab show ?thesis by (simp add: idx_def)
  qed
  from K have k: "int n = K \<longleftrightarrow> n = nat K" for n by auto
  from o have "{t \<in> set ships. int (ship_len t) = K \<and> idx (origin t) < 100} =
      {t. ship_len t = nat K} \<inter> set ships" by (auto simp: k)
  then have "card {t \<in> set ships. int (ship_len t) = K \<and> idx (origin t) < 100} =
      length (filter (\<lambda>t. ship_len t = nat K) ships)"
    using d by (simp add: distinct_length_filter)
  also have "\<dots> = count (mset (map ship_len ships)) (nat K)"
    by (induction ships) auto
  finally show ?thesis using legal by (simp add: legal_fleet_def)
qed

lemma legal_fleet_counter:
  assumes legal: "legal_fleet ships"
  shows "fleet_counter (place ships)"
proof -
  from scan_prefix [OF legal, of 100] have inv: "scan_inv ships 100 (fleet_scan (place ships))"
    by (simp add: fleet_scan_def row_major_index)
  have "snd (fleet_scan (place ships)) K = 0" if "K \<in> {1, 2, 3, 4}" for K
  proof -
    from that have "1 \<le> K" by auto
    from inv legal_fleet_count [OF legal this] that show ?thesis
      by (auto simp: scan_inv_def)
  qed
  then show ?thesis by (simp add: fleet_counter_def set_1_4)
qed

text \<open>The grid of a legal fleet, taken as a value, passes all three validators.\<close>

lemma legal_fleet_value_accepted:
  assumes "legal_fleet ships" and "g = place ships"
  shows "validate_battlefield g =
           ([Validate BoardValidator, Validate BattleShipsValidator,
             Validate BattleShipsQuantityValidator], Inr True)"
  using assms
  by (simp add: validate_battlefield_unfold BoardValidator_square square_place
      legal_fleet_contact_ok quantity_validate_square legal_fleet_counter)

definition full_fleet_ships :: "ship list" where
  "full_fleet_ships =
     [\<lparr>ship_row = 0, ship_col = 0, ship_axis = Vertical, ship_len = 4\<rparr>,
      \<lparr>ship_row = 2, ship_col = 4, ship_axis = Horizontal, ship_len = 3\<rparr>,
      \<lparr>ship_row = 5, ship_col = 4, ship_axis = Horizontal, ship_len = 3\<rparr>,
      \<lparr>ship_row = 0, ship_col = 5, ship_axis = Horizontal, ship_len = 2\<rparr>,
      \<lparr>ship_row = 1, ship_col = 2, ship_axis = Vertical, ship_len = 2\<rparr>,
      \<lparr>ship_row = 1, ship_col = 8, ship_axis = Vertical, ship_len = 2\<rparr>,
      \<lparr>ship_row = 4, ship_col = 8, ship_axis = Horizontal, ship_len = 1\<rparr>,
      \<lparr>ship_row = 6, ship_col = 8, ship_axis = Vertical, ship_len = 1\<rparr>,
      \<lparr>ship_row = 7, ship_col = 3, ship_axis = Horizontal, ship_len = 1\<rparr>,
      \<lparr>ship_row = 8, ship_col = 7, ship_axis = Vertical, ship_len = 1\<rparr>]"

lemma full_fleet_legal: "legal_fleet full_fleet_ships"
  unfolding legal_fleet_def
proof (intro conjI)
  show "mset (map ship_len full_fleet_ships) = mset [4, 3, 3, 2, 2, 2, 1, 1, 1, 1]"
    by (simp add: full_fleet_ships_def)
  show "list_all on_board full_fleet_ships" by code_simp
  show "all_apart full_fleet_ships" by code_simp
qed

lemma full_fleet_placed: "full_fleet = place full_fleet_ships"
  by code_simp

section \<open>The grid as an object: rows in a store\<close>

text \<open>
  For the effect of a call on the caller's grid, the grid is an object: its rows are list
  objects of a store, at addresses, and the grid is the list of the addresses of its rows
  (two entries may be the same row object). The outer list is never assigned to by
  \<^verbatim>\<open>main.py\<close>; its only stores are \<^verbatim>\<open>self.board[a][b] = 0\<close>, which write to a row object.
  An action takes the store and returns the store it leaves, with a result or the
  exception it raised: what was stored before an exception stays stored.
\<close>

type_synonym addr = nat

type_synonym store = "int list list"

type_synonym 'a action = "store \<Rightarrow> store \<times> (error + 'a)"

definition deref :: "store \<Rightarrow> addr list \<Rightarrow> grid" where
  "deref h rows = map (\<lambda>a. h ! a) rows"

definition returnS :: "'a \<Rightarrow> 'a action" where
  "returnS x = (\<lambda>h. (h, Inr x))"

definition readS :: "(store \<Rightarrow> error + 'a) \<Rightarrow> 'a action" where
  "readS f = (\<lambda>h. (h, f h))"

definition bindS :: "'a action \<Rightarrow> ('a \<Rightarrow> 'b action) \<Rightarrow> 'b action" where
  "bindS m f = (\<lambda>h. case m h of (h', Inl e) \<Rightarrow> (h', Inl e) | (h', Inr x) \<Rightarrow> f x h')"

text \<open>
  \<^verbatim>\<open>copy.deepcopy\<close> is library code, modelled by what it does to a list of lists of
  integers: every distinct row object is copied once into a new object, and entries that
  shared a row share its copy (the memo of \<^verbatim>\<open>deepcopy\<close>). New objects get the next free
  addresses.
\<close>

fun position :: "'a list \<Rightarrow> 'a \<Rightarrow> nat" where
  "position [] a = 0"
| "position (x # xs) a = (if x = a then 0 else Suc (position xs a))"

definition deepcopy :: "addr list \<Rightarrow> store \<Rightarrow> store \<times> addr list" where
  "deepcopy rows h =
     (let olds = remdups rows
      in (h @ map (\<lambda>a. h ! a) olds, map (\<lambda>a. length h + position olds a) rows))"

subsection \<open>BattleShipsQuantityValidator on the store\<close>

definition inspect_cell_s :: "addr list \<Rightarrow> int \<Rightarrow> int \<Rightarrow> store \<Rightarrow> error + int" where
  "inspect_cell_s rows i_coord j_coord h =
     bindE (getitem rows i_coord) (\<lambda>a. getitem (h ! a) j_coord)"

definition get_neighbor_cell_status_s :: "addr list \<Rightarrow> int \<Rightarrow> int \<Rightarrow> store \<Rightarrow> error + int" where
  "get_neighbor_cell_status_s rows i_coord j_coord h =
     (if 0 \<le> i_coord \<and> i_coord < board_length \<and> 0 \<le> j_coord \<and> j_coord < board_length
      then inspect_cell_s rows i_coord j_coord h
      else Inr 0)"

definition validate_ship_vertically_s :: "addr list \<Rightarrow> int \<Rightarrow> int \<Rightarrow> int \<Rightarrow> store \<Rightarrow> error + bool" where
  "validate_ship_vertically_s rows i_coord j_coord len h =
     bindE (collect (\<lambda>i. get_neighbor_cell_status_s rows (i_coord + i) j_coord h) [1..len - 1])
       (\<lambda>cells. Inr (list_all (\<lambda>c. c \<noteq> 0) cells))"

definition validate_ship_horizontally_s :: "addr list \<Rightarrow> int \<Rightarrow> int \<Rightarrow> int \<Rightarrow> store \<Rightarrow> error + bool" where
  "validate_ship_horizontally_s rows i_coord j_coord len h =
     bindE (collect (\<lambda>i. get_neighbor_cell_status_s rows i_coord (j_coord + i) h) [1..len - 1])
       (\<lambda>cells. Inr (list_all (\<lambda>c. c \<noteq> 0) cells))"

text \<open>\<^verbatim>\<open>self.board[a][c] = v\<close>: the row object at entry \<open>a\<close> is written to, in the store.\<close>

definition store_cell_s :: "addr list \<Rightarrow> int \<Rightarrow> int \<Rightarrow> int \<Rightarrow> unit action" where
  "store_cell_s rows a c v =
     (\<lambda>h. case getitem rows a of
             Inl e \<Rightarrow> (h, Inl e)
           | Inr r \<Rightarrow>
               (case setitem (h ! r) c v of
                  Inl e \<Rightarrow> (h, Inl e)
                | Inr row' \<Rightarrow> (h[r := row'], Inr ())))"

fun drop_vertically_loop_s :: "addr list \<Rightarrow> int \<Rightarrow> int \<Rightarrow> int list \<Rightarrow> unit action" where
  "drop_vertically_loop_s rows i_coord j_coord [] = returnS ()"
| "drop_vertically_loop_s rows i_coord j_coord (i # rest) =
     bindS (store_cell_s rows (i_coord + i) j_coord 0) (\<lambda>_.
       drop_vertically_loop_s rows i_coord j_coord rest)"

fun drop_horizontally_loop_s :: "addr list \<Rightarrow> int \<Rightarrow> int \<Rightarrow> int list \<Rightarrow> unit action" where
  "drop_horizontally_loop_s rows i_coord j_coord [] = returnS ()"
| "drop_horizontally_loop_s rows i_coord j_coord (i # rest) =
     bindS (store_cell_s rows i_coord (j_coord + i) 0) (\<lambda>_.
       drop_horizontally_loop_s rows i_coord j_coord rest)"

definition drop_ship_s :: "addr list \<Rightarrow> int \<Rightarrow> int \<Rightarrow> int \<Rightarrow> bool action" where
  "drop_ship_s rows i_coord j_coord len =
     bindS (readS (validate_ship_vertically_s rows i_coord j_coord len)) (\<lambda>vertical.
     bindS (if vertical then drop_vertically_loop_s rows i_coord j_coord [1..len - 1]
            else returnS ()) (\<lambda>_.
     bindS (readS (validate_ship_horizontally_s rows i_coord j_coord len)) (\<lambda>horizontal.
     bindS (if horizontal then drop_horizontally_loop_s rows i_coord j_coord [1..len - 1]
            else returnS ()) (\<lambda>_.
       returnS (vertical \<or> horizontal)))))"

definition count_cell_s ::
  "addr list \<Rightarrow> (int \<times> int) list \<Rightarrow> nat \<Rightarrow> nat \<Rightarrow> ((int \<times> int) list) action" where
  "count_cell_s rows d i_index j_index =
     bindS (readS (inspect_cell_s rows (int i_index) (int j_index))) (\<lambda>cell.
       if cell = 0 then returnS d
       else
         bindS (drop_ship_s rows (int i_index) (int j_index) 4) (\<lambda>flagman.
           if flagman then readS (\<lambda>_. decrement d 4)
           else
             bindS (drop_ship_s rows (int i_index) (int j_index) 3) (\<lambda>cruiser.
               if cruiser then readS (\<lambda>_. decrement d 3)
               else
                 bindS (drop_ship_s rows (int i_index) (int j_index) 2) (\<lambda>destroyer.
                   if destroyer then readS (\<lambda>_. decrement d 2)
                   else readS (\<lambda>_. decrement d 1)))))"

fun count_inner_s ::
  "addr list \<Rightarrow> (int \<times> int) list \<Rightarrow> nat \<Rightarrow> nat list \<Rightarrow> ((int \<times> int) list) action" where
  "count_inner_s rows d i_index [] = returnS d"
| "count_inner_s rows d i_index (j_index # rest) =
     bindS (count_cell_s rows d i_index j_index) (\<lambda>d'. count_inner_s rows d' i_index rest)"

fun count_outer_s ::
  "addr list \<Rightarrow> (int \<times> int) list \<Rightarrow> nat list \<Rightarrow> ((int \<times> int) list) action" where
  "count_outer_s rows d [] = returnS d"
| "count_outer_s rows d (i_index # rest) =
     bindS (readS (\<lambda>h. Inr (length (h ! (rows ! i_index))))) (\<lambda>n.
     bindS (count_inner_s rows d i_index [0..<n]) (\<lambda>d'.
       count_outer_s rows d' rest))"

text \<open>
  \<^verbatim>\<open>BattleShipsQuantityValidator(field).validate()\<close>: the constructor deep-copies the
  caller's grid, and \<^verbatim>\<open>validate\<close> works on the copy.
\<close>

definition BattleShipsQuantityValidator_validate_s :: "addr list \<Rightarrow> bool action" where
  "BattleShipsQuantityValidator_validate_s field =
     (\<lambda>h. case deepcopy field h of
             (h1, rows) \<Rightarrow>
               bindS (count_outer_s rows (map (\<lambda>key. (key, 5 - key)) [1..4]) [0..<length rows])
                 (\<lambda>d. if \<not> list_all (\<lambda>x. x = 0) (map snd d)
                       then readS (\<lambda>_. Inl (ValueError ShipsIncorrect))
                       else returnS True) h1)"

text \<open>
  The other two validators only read the grid they are given: they are the functions above
  on the rows as the store holds them.
\<close>

fun validator_validate_s :: "validator \<Rightarrow> addr list \<Rightarrow> bool action" where
  "validator_validate_s BoardValidator field = readS (\<lambda>h. BoardValidator_validate (deref h field))"
| "validator_validate_s BattleShipsValidator field =
     readS (\<lambda>h. BattleShipsValidator_validate (deref h field))"
| "validator_validate_s BattleShipsQuantityValidator field =
     BattleShipsQuantityValidator_validate_s field"

fun run_validators_s ::
  "validator list \<Rightarrow> addr list \<Rightarrow> store \<Rightarrow> store \<times> event list \<times> (error + bool)" where
  "run_validators_s [] field h = (h, [], Inr True)"
| "run_validators_s (v # rest) field h =
     (case validator_validate_s v field h of
        (h', Inl (ValueError reason)) \<Rightarrow> (h', [Validate v, Debug reason], Inr False)
      | (h', Inl e) \<Rightarrow> (h', [Validate v], Inl e)
      | (h', Inr _) \<Rightarrow>
          (case run_validators_s rest field h' of
             (h'', events, r) \<Rightarrow> (h'', Validate v # events, r)))"

definition validate_battlefield_s ::
  "addr list \<Rightarrow> store \<Rightarrow> store \<times> event list \<times> (error + bool)" where
  "validate_battlefield_s field h =
     run_validators_s [BoardValidator, BattleShipsValidator, BattleShipsQuantityValidator] field h"

definition aliased_rows :: store where
  "aliased_rows =
     [[1, 1, 0, 0, 0, 0, 0, 0, 0, 0],
      [0, 0, 0, 0, 0, 0, 0, 0, 0, 0]]"

definition aliased_field :: "addr list" where
  "aliased_field = [0, 1, 0, 1, 1, 1, 1, 1, 1, 1]"

subsection \<open>Actions\<close>

lemma returnS_apply: "returnS x h = (h, Inr x)"
  by (simp add: returnS_def)

lemma readS_apply: "readS f h = (h, f h)"
  by (simp add: readS_def)

lemma bindS_apply:
  "bindS m f h = (case snd (m h) of Inl e \<Rightarrow> (fst (m h), Inl e) | Inr x \<Rightarrow> f x (fst (m h)))"
  by (simp add: bindS_def split: prod.splits sum.splits)

definition norm_index :: "nat \<Rightarrow> int \<Rightarrow> nat option" where
  "norm_index n i =
     (let k = (if i < 0 then int n + i else i)
      in if 0 \<le> k \<and> k < int n then Some (nat k) else None)"

lemma getitem_norm:
  "getitem xs i = (case norm_index (length xs) i of None \<Rightarrow> Inl IndexError | Some k \<Rightarrow> Inr (xs ! k))"
  by (simp add: getitem_def norm_index_def Let_def)

lemma setitem_norm:
  "setitem xs i v =
     (case norm_index (length xs) i of None \<Rightarrow> Inl IndexError | Some k \<Rightarrow> Inr (xs[k := v]))"
  by (simp add: setitem_def norm_index_def Let_def)

lemma norm_index_less: "norm_index n i = Some k \<Longrightarrow> k < n"
  by (auto simp: norm_index_def Let_def split: if_splits)

lemma getitem_out_length:
  "getitem xs i = Inl e \<Longrightarrow> length ys = length xs \<Longrightarrow> getitem ys i = Inl e"
  by (auto simp: getitem_def Let_def split: if_splits)

lemma setitem_length: "setitem xs i v = Inr ys \<Longrightarrow> length ys = length xs"
  by (auto simp: setitem_def Let_def split: if_splits)

subsection \<open>What an action leaves alone\<close>

text \<open>
  \<open>frame rows p\<close>: the action \<open>p\<close> allocates nothing and writes to no object but the rows
  at the addresses \<open>rows\<close>.
\<close>

definition frame :: "addr list \<Rightarrow> 'a action \<Rightarrow> bool" where
  "frame rows p =
     (\<forall>h. length (fst (p h)) = length h \<and> (\<forall>a. a \<notin> set rows \<longrightarrow> fst (p h) ! a = h ! a))"

lemma frame_returnS: "frame rows (returnS x)"
  by (simp add: frame_def returnS_apply)

lemma frame_readS: "frame rows (readS f)"
  by (simp add: frame_def readS_apply)

lemma frame_bindS:
  assumes "frame rows m" and "\<And>x. frame rows (f x)"
  shows "frame rows (bindS m f)"
  unfolding frame_def
proof (intro allI)
  fix h
  from assms(1) have m: "length (fst (m h)) = length h" "\<And>a. a \<notin> set rows \<Longrightarrow> fst (m h) ! a = h ! a"
    by (simp_all add: frame_def)
  show "length (fst (bindS m f h)) = length h \<and> (\<forall>a. a \<notin> set rows \<longrightarrow> fst (bindS m f h) ! a = h ! a)"
  proof (cases "snd (m h)")
    case (Inl e)
    with m show ?thesis by (simp add: bindS_apply)
  next
    case (Inr x)
    from assms(2) [of x] have "length (fst (f x (fst (m h)))) = length (fst (m h))"
      "\<And>a. a \<notin> set rows \<Longrightarrow> fst (f x (fst (m h))) ! a = fst (m h) ! a"
      by (simp_all add: frame_def)
    with m Inr show ?thesis by (simp add: bindS_apply)
  qed
qed

lemma frame_if: "frame rows p \<Longrightarrow> frame rows q \<Longrightarrow> frame rows (if c then p else q)"
  by simp

lemma frame_store_cell_s: "frame rows (store_cell_s rows a c v)"
  unfolding frame_def
proof (intro allI)
  fix h
  show "length (fst (store_cell_s rows a c v h)) = length h \<and>
        (\<forall>b. b \<notin> set rows \<longrightarrow> fst (store_cell_s rows a c v h) ! b = h ! b)"
  proof (cases "norm_index (length rows) a")
    case None
    then show ?thesis by (simp add: store_cell_s_def getitem_norm)
  next
    case (Some k)
    then have "rows ! k \<in> set rows" by (simp add: norm_index_less)
    with Some show ?thesis
      by (cases "setitem (h ! (rows ! k)) c v")
        (auto simp: store_cell_s_def getitem_norm intro!: nth_list_update_neq)
  qed
qed

lemma frame_drop_vertically_loop_s: "frame rows (drop_vertically_loop_s rows i j ks)"
  by (induction ks) (simp_all add: frame_returnS frame_bindS frame_store_cell_s)

lemma frame_drop_horizontally_loop_s: "frame rows (drop_horizontally_loop_s rows i j ks)"
  by (induction ks) (simp_all add: frame_returnS frame_bindS frame_store_cell_s)

lemma frame_drop_ship_s: "frame rows (drop_ship_s rows i j len)"
  unfolding drop_ship_s_def
  by (intro frame_bindS frame_readS frame_returnS frame_if frame_drop_vertically_loop_s
      frame_drop_horizontally_loop_s)

lemma frame_count_cell_s: "frame rows (count_cell_s rows d i j)"
  unfolding count_cell_s_def
  by (intro frame_bindS frame_readS frame_returnS frame_if frame_drop_ship_s)

lemma frame_count_inner_s: "frame rows (count_inner_s rows d i js)"
  by (induction js arbitrary: d) (simp_all add: frame_returnS frame_bindS frame_count_cell_s)

lemma frame_count_outer_s: "frame rows (count_outer_s rows d is)"
  by (induction "is" arbitrary: d)
    (simp_all add: frame_returnS frame_readS frame_bindS frame_count_inner_s)

subsection \<open>Two copies of one grid behave alike\<close>

text \<open>
  Two grids in two stores are \<open>similar\<close> when they have the same number of rows, equal
  rows at equal positions, and the same positions share a row object.
\<close>

definition similar :: "store \<Rightarrow> addr list \<Rightarrow> store \<Rightarrow> addr list \<Rightarrow> bool" where
  "similar h1 r1 h2 r2 =
     (length r1 = length r2 \<and>
      (\<forall>k<length r1. r1 ! k < length h1 \<and> r2 ! k < length h2 \<and> h1 ! (r1 ! k) = h2 ! (r2 ! k)) \<and>
      (\<forall>k<length r1. \<forall>l<length r1. (r1 ! k = r1 ! l) = (r2 ! k = r2 ! l)))"

definition sim_read ::
  "addr list \<Rightarrow> addr list \<Rightarrow> (store \<Rightarrow> 'a) \<Rightarrow> (store \<Rightarrow> 'a) \<Rightarrow> bool" where
  "sim_read r1 r2 f1 f2 = (\<forall>h1 h2. similar h1 r1 h2 r2 \<longrightarrow> f1 h1 = f2 h2)"

definition sim :: "addr list \<Rightarrow> addr list \<Rightarrow> 'a action \<Rightarrow> 'a action \<Rightarrow> bool" where
  "sim r1 r2 p1 p2 =
     (\<forall>h1 h2. similar h1 r1 h2 r2 \<longrightarrow>
        snd (p1 h1) = snd (p2 h2) \<and> similar (fst (p1 h1)) r1 (fst (p2 h2)) r2)"

lemma sim_returnS: "sim r1 r2 (returnS x) (returnS x)"
  by (simp add: sim_def returnS_apply)

lemma sim_readS: "sim_read r1 r2 f1 f2 \<Longrightarrow> sim r1 r2 (readS f1) (readS f2)"
  by (simp add: sim_def sim_read_def readS_apply)

lemma sim_read_const: "sim_read r1 r2 (\<lambda>_. x) (\<lambda>_. x)"
  by (simp add: sim_read_def)

lemma sim_bindS:
  assumes "sim r1 r2 m1 m2" and "\<And>x. sim r1 r2 (f1 x) (f2 x)"
  shows "sim r1 r2 (bindS m1 f1) (bindS m2 f2)"
  unfolding sim_def
proof (intro allI impI)
  fix h1 h2 assume s: "similar h1 r1 h2 r2"
  with assms(1) have m: "snd (m1 h1) = snd (m2 h2)" "similar (fst (m1 h1)) r1 (fst (m2 h2)) r2"
    by (simp_all add: sim_def)
  show "snd (bindS m1 f1 h1) = snd (bindS m2 f2 h2) \<and>
        similar (fst (bindS m1 f1 h1)) r1 (fst (bindS m2 f2 h2)) r2"
  proof (cases "snd (m2 h2)")
    case (Inl e)
    with m show ?thesis by (simp add: bindS_apply)
  next
    case (Inr x)
    from assms(2) [of x] m(2)
    have "snd (f1 x (fst (m1 h1))) = snd (f2 x (fst (m2 h2))) \<and>
          similar (fst (f1 x (fst (m1 h1)))) r1 (fst (f2 x (fst (m2 h2)))) r2"
      by (simp add: sim_def)
    with m Inr show ?thesis by (simp add: bindS_apply)
  qed
qed

lemma sim_if: "sim r1 r2 p1 p2 \<Longrightarrow> sim r1 r2 q1 q2 \<Longrightarrow>
    sim r1 r2 (if c then p1 else q1) (if c then p2 else q2)"
  by simp

lemma similar_row:
  "similar h1 r1 h2 r2 \<Longrightarrow> norm_index (length r1) i = Some k \<Longrightarrow> h1 ! (r1 ! k) = h2 ! (r2 ! k)"
  by (simp add: similar_def norm_index_less)

lemma sim_read_inspect_cell_s:
  "sim_read r1 r2 (inspect_cell_s r1 i j) (inspect_cell_s r2 i j)"
  unfolding sim_read_def
proof (intro allI impI)
  fix h1 h2 assume s: "similar h1 r1 h2 r2"
  then have l: "length r2 = length r1" by (simp add: similar_def)
  show "inspect_cell_s r1 i j h1 = inspect_cell_s r2 i j h2"
  proof (cases "norm_index (length r1) i")
    case None
    with l show ?thesis by (simp add: inspect_cell_s_def getitem_norm [of r1] getitem_norm [of r2])
  next
    case (Some k)
    with l similar_row [OF s Some] show ?thesis
      by (simp add: inspect_cell_s_def getitem_norm [of r1] getitem_norm [of r2])
  qed
qed

lemma sim_read_neighbor_s:
  "sim_read r1 r2 (get_neighbor_cell_status_s r1 i j) (get_neighbor_cell_status_s r2 i j)"
  using sim_read_inspect_cell_s [of r1 r2 i j]
  unfolding sim_read_def get_neighbor_cell_status_s_def by auto

lemma sim_read_validate_ship_vertically_s:
  "sim_read r1 r2 (validate_ship_vertically_s r1 i j len) (validate_ship_vertically_s r2 i j len)"
  unfolding sim_read_def
proof (intro allI impI)
  fix h1 h2 assume s: "similar h1 r1 h2 r2"
  have "(\<lambda>k. get_neighbor_cell_status_s r1 (i + k) j h1) =
        (\<lambda>k. get_neighbor_cell_status_s r2 (i + k) j h2)"
    using sim_read_neighbor_s [of r1 r2] s by (auto simp: sim_read_def)
  then show "validate_ship_vertically_s r1 i j len h1 = validate_ship_vertically_s r2 i j len h2"
    by (simp add: validate_ship_vertically_s_def)
qed

lemma sim_read_validate_ship_horizontally_s:
  "sim_read r1 r2 (validate_ship_horizontally_s r1 i j len) (validate_ship_horizontally_s r2 i j len)"
  unfolding sim_read_def
proof (intro allI impI)
  fix h1 h2 assume s: "similar h1 r1 h2 r2"
  have "(\<lambda>k. get_neighbor_cell_status_s r1 i (j + k) h1) =
        (\<lambda>k. get_neighbor_cell_status_s r2 i (j + k) h2)"
    using sim_read_neighbor_s [of r1 r2] s by (auto simp: sim_read_def)
  then show "validate_ship_horizontally_s r1 i j len h1 = validate_ship_horizontally_s r2 i j len h2"
    by (simp add: validate_ship_horizontally_s_def)
qed

lemma similar_update:
  assumes s: "similar h1 r1 h2 r2" and k: "k < length r1"
  shows "similar (h1[r1 ! k := row]) r1 (h2[r2 ! k := row]) r2"
proof -
  from s have l: "length r1 = length r2"
    and b: "\<And>m. m < length r1 \<Longrightarrow> r1 ! m < length h1 \<and> r2 ! m < length h2 \<and> h1 ! (r1 ! m) = h2 ! (r2 ! m)"
    and a: "\<And>m n. m < length r1 \<Longrightarrow> n < length r1 \<Longrightarrow> (r1 ! m = r1 ! n) = (r2 ! m = r2 ! n)"
    by (simp_all add: similar_def)
  have "h1[r1 ! k := row] ! (r1 ! m) = h2[r2 ! k := row] ! (r2 ! m)" if "m < length r1" for m
  proof (cases "r1 ! m = r1 ! k")
    case True
    with a [OF that k] have "r2 ! m = r2 ! k" by simp
    with True b [OF k] show ?thesis by simp
  next
    case False
    with a [OF that k] have "r2 ! m \<noteq> r2 ! k" by simp
    with False b [OF that] show ?thesis by simp
  qed
  with l b a show ?thesis by (simp add: similar_def)
qed

lemma sim_store_cell_s: "sim r1 r2 (store_cell_s r1 a c v) (store_cell_s r2 a c v)"
  unfolding sim_def
proof (intro allI impI)
  fix h1 h2 assume s: "similar h1 r1 h2 r2"
  then have l: "length r2 = length r1" by (simp add: similar_def)
  show "snd (store_cell_s r1 a c v h1) = snd (store_cell_s r2 a c v h2) \<and>
        similar (fst (store_cell_s r1 a c v h1)) r1 (fst (store_cell_s r2 a c v h2)) r2"
  proof (cases "norm_index (length r1) a")
    case None
    with l s show ?thesis
      by (simp add: store_cell_s_def getitem_norm [of r1] getitem_norm [of r2])
  next
    case (Some k)
    note row = similar_row [OF s Some]
    from Some have k: "k < length r1" by (rule norm_index_less)
    show ?thesis
    proof (cases "setitem (h2 ! (r2 ! k)) c v")
      case (Inl e)
      with Some l s row show ?thesis
        by (simp add: store_cell_s_def getitem_norm [of r1] getitem_norm [of r2])
    next
      case (Inr row')
      with Some l row similar_update [OF s k, of row'] show ?thesis
        by (simp add: store_cell_s_def getitem_norm [of r1] getitem_norm [of r2])
    qed
  qed
qed

lemma sim_drop_vertically_loop_s:
  "sim r1 r2 (drop_vertically_loop_s r1 i j ks) (drop_vertically_loop_s r2 i j ks)"
  by (induction ks) (simp_all add: sim_returnS sim_bindS sim_store_cell_s)

lemma sim_drop_horizontally_loop_s:
  "sim r1 r2 (drop_horizontally_loop_s r1 i j ks) (drop_horizontally_loop_s r2 i j ks)"
  by (induction ks) (simp_all add: sim_returnS sim_bindS sim_store_cell_s)

lemma sim_drop_ship_s: "sim r1 r2 (drop_ship_s r1 i j len) (drop_ship_s r2 i j len)"
  unfolding drop_ship_s_def
  by (intro sim_bindS sim_readS sim_returnS sim_if sim_read_validate_ship_vertically_s
      sim_read_validate_ship_horizontally_s sim_drop_vertically_loop_s
      sim_drop_horizontally_loop_s)

lemma sim_count_cell_s: "sim r1 r2 (count_cell_s r1 d i j) (count_cell_s r2 d i j)"
  unfolding count_cell_s_def
  by (intro sim_bindS sim_readS sim_returnS sim_if sim_read_inspect_cell_s sim_read_const
      sim_drop_ship_s)

lemma sim_count_inner_s: "sim r1 r2 (count_inner_s r1 d i js) (count_inner_s r2 d i js)"
  by (induction js arbitrary: d) (simp_all add: sim_returnS sim_bindS sim_count_cell_s)

lemma sim_read_row_length:
  "i < length r1 \<Longrightarrow>
   sim_read r1 r2 (\<lambda>h. Inr (length (h ! (r1 ! i))) :: error + nat) (\<lambda>h. Inr (length (h ! (r2 ! i))))"
  by (simp add: sim_read_def similar_def)

lemma sim_count_outer_s:
  "\<forall>i\<in>set is. i < length r1 \<Longrightarrow>
   sim r1 r2 (count_outer_s r1 d is) (count_outer_s r2 d is)"
proof (induction "is" arbitrary: d)
  case Nil
  then show ?case by (simp add: sim_returnS)
next
  case (Cons i "is")
  then show ?case
    by (auto intro!: sim_bindS sim_readS sim_read_row_length sim_count_inner_s)
qed

subsection \<open>The deep copy\<close>

text \<open>\<open>extends_store h0 h\<close>: every object of \<open>h0\<close> is in \<open>h\<close>, unchanged.\<close>

definition extends_store :: "store \<Rightarrow> store \<Rightarrow> bool" where
  "extends_store h0 h = (length h0 \<le> length h \<and> (\<forall>a<length h0. h ! a = h0 ! a))"

lemma extends_store_refl: "extends_store h h"
  by (simp add: extends_store_def)

lemma extends_store_take: "extends_store h0 h \<Longrightarrow> take (length h0) h = h0"
  by (rule nth_equalityI) (simp_all add: extends_store_def)

lemma extends_store_deref:
  "extends_store h0 h \<Longrightarrow> list_all (\<lambda>a. a < length h0) field \<Longrightarrow> deref h field = deref h0 field"
  by (simp add: deref_def extends_store_def list_all_iff)

lemma position_less: "a \<in> set xs \<Longrightarrow> position xs a < length xs"
  by (induction xs) auto

lemma position_nth: "a \<in> set xs \<Longrightarrow> xs ! position xs a = a"
  by (induction xs) auto

lemma position_eq: "a \<in> set xs \<Longrightarrow> b \<in> set xs \<Longrightarrow> (position xs a = position xs b) = (a = b)"
  using position_nth [of a xs] position_nth [of b xs] by metis

lemma deepcopy_row:
  assumes "list_all (\<lambda>a. a < length h0) field" and "extends_store h0 h" and "k < length field"
  shows "snd (deepcopy field h) ! k = length h + position (remdups field) (field ! k)"
    and "snd (deepcopy field h) ! k < length (fst (deepcopy field h))"
    and "fst (deepcopy field h) ! (snd (deepcopy field h) ! k) = h0 ! (field ! k)"
proof -
  let ?ds = "remdups field"
  from assms(3) have m: "field ! k \<in> set ?ds" by simp
  from assms(1,3) have b: "field ! k < length h0" by (simp add: list_all_length)
  show c: "snd (deepcopy field h) ! k = length h + position ?ds (field ! k)"
    using assms(3) by (simp add: deepcopy_def Let_def)
  from position_less [OF m] show "snd (deepcopy field h) ! k < length (fst (deepcopy field h))"
    unfolding c by (simp add: deepcopy_def Let_def)
  from position_less [OF m] position_nth [OF m] b assms(2)
  show "fst (deepcopy field h) ! (snd (deepcopy field h) ! k) = h0 ! (field ! k)"
    unfolding c by (simp add: deepcopy_def Let_def nth_append extends_store_def)
qed

lemma deepcopy_length: "length (snd (deepcopy field h)) = length field"
  by (simp add: deepcopy_def Let_def)

lemma deepcopy_fresh: "c \<in> set (snd (deepcopy field h)) \<Longrightarrow> length h \<le> c"
  by (auto simp: deepcopy_def Let_def)

lemma deepcopy_extends: "extends_store h (fst (deepcopy field h))"
  by (simp add: deepcopy_def Let_def extends_store_def nth_append)

lemma deepcopy_similar:
  assumes f: "list_all (\<lambda>a. a < length h0) field"
    and e1: "extends_store h0 h1" and e2: "extends_store h0 h2"
  shows "similar (fst (deepcopy field h1)) (snd (deepcopy field h1))
           (fst (deepcopy field h2)) (snd (deepcopy field h2))"
  unfolding similar_def deepcopy_length
proof (intro conjI allI impI)
  show "length field = length field" ..
next
  fix k assume k: "k < length field"
  from deepcopy_row(2) [OF f e1 k]
  show "snd (deepcopy field h1) ! k < length (fst (deepcopy field h1))" .
  from deepcopy_row(2) [OF f e2 k]
  show "snd (deepcopy field h2) ! k < length (fst (deepcopy field h2))" .
  from deepcopy_row(3) [OF f e1 k] deepcopy_row(3) [OF f e2 k]
  show "fst (deepcopy field h1) ! (snd (deepcopy field h1) ! k) =
        fst (deepcopy field h2) ! (snd (deepcopy field h2) ! k)" by simp
next
  fix k l assume k: "k < length field" and l: "l < length field"
  show "(snd (deepcopy field h1) ! k = snd (deepcopy field h1) ! l) =
        (snd (deepcopy field h2) ! k = snd (deepcopy field h2) ! l)"
    unfolding deepcopy_row(1) [OF f e1 k] deepcopy_row(1) [OF f e1 l]
      deepcopy_row(1) [OF f e2 k] deepcopy_row(1) [OF f e2 l]
    by simp
qed

subsection \<open>The three validators on the store\<close>

definition count_and_check :: "addr list \<Rightarrow> bool action" where
  "count_and_check rows =
     bindS (count_outer_s rows (map (\<lambda>key. (key, 5 - key)) [1..4]) [0..<length rows])
       (\<lambda>d. if \<not> list_all (\<lambda>x. x = 0) (map snd d)
             then readS (\<lambda>_. Inl (ValueError ShipsIncorrect))
             else returnS True)"

lemma quantity_s_unfold:
  "BattleShipsQuantityValidator_validate_s field h =
     count_and_check (snd (deepcopy field h)) (fst (deepcopy field h))"
  by (simp add: BattleShipsQuantityValidator_validate_s_def count_and_check_def
      split: prod.splits)

lemma frame_count_and_check: "frame rows (count_and_check rows)"
  unfolding count_and_check_def
  by (intro frame_bindS frame_count_outer_s frame_if frame_readS frame_returnS)

lemma sim_count_and_check:
  "length r1 = length r2 \<Longrightarrow> sim r1 r2 (count_and_check r1) (count_and_check r2)"
  unfolding count_and_check_def
  by (auto intro!: sim_bindS sim_count_outer_s sim_if sim_readS sim_read_const sim_returnS)

lemma quantity_s_extends:
  assumes e: "extends_store h0 h"
  shows "extends_store h0 (fst (BattleShipsQuantityValidator_validate_s field h))"
proof -
  let ?hc = "fst (deepcopy field h)" and ?rows = "snd (deepcopy field h)"
  let ?h' = "fst (count_and_check ?rows ?hc)"
  from frame_count_and_check [of ?rows]
  have len: "length ?h' = length ?hc" and same: "\<And>a. a \<notin> set ?rows \<Longrightarrow> ?h' ! a = ?hc ! a"
    by (simp_all add: frame_def)
  from deepcopy_extends [of h field]
  have c: "length h \<le> length ?hc" "\<And>a. a < length h \<Longrightarrow> ?hc ! a = h ! a"
    by (simp_all add: extends_store_def)
  from e have e': "length h0 \<le> length h" "\<And>a. a < length h0 \<Longrightarrow> h ! a = h0 ! a"
    by (simp_all add: extends_store_def)
  have "?h' ! a = h0 ! a" if "a < length h0" for a
  proof -
    from that e'(1) have "a < length h" by simp
    with deepcopy_fresh [of a field h] have "a \<notin> set ?rows" by auto
    with same [of a] c(2) [OF \<open>a < length h\<close>] e'(2) [OF that] show ?thesis by simp
  qed
  with len c(1) e'(1) show ?thesis
    by (simp add: quantity_s_unfold extends_store_def)
qed

lemma quantity_s_result:
  assumes f: "list_all (\<lambda>a. a < length h0) field"
    and e1: "extends_store h0 h1" and e2: "extends_store h0 h2"
  shows "snd (BattleShipsQuantityValidator_validate_s field h1) =
         snd (BattleShipsQuantityValidator_validate_s field h2)"
proof -
  have "sim (snd (deepcopy field h1)) (snd (deepcopy field h2))
      (count_and_check (snd (deepcopy field h1))) (count_and_check (snd (deepcopy field h2)))"
    by (rule sim_count_and_check) (simp add: deepcopy_length)
  with deepcopy_similar [OF f e1 e2] show ?thesis
    by (simp add: sim_def quantity_s_unfold)
qed

lemma validator_s_stable:
  assumes f: "list_all (\<lambda>a. a < length h0) field"
    and e1: "extends_store h0 h1" and e2: "extends_store h0 h2"
  shows "snd (validator_validate_s v field h1) = snd (validator_validate_s v field h2)"
    and "extends_store h0 (fst (validator_validate_s v field h1))"
proof -
  from extends_store_deref [OF e1 f] extends_store_deref [OF e2 f]
  have d: "deref h1 field = deref h2 field" by simp
  show "snd (validator_validate_s v field h1) = snd (validator_validate_s v field h2)"
    using d quantity_s_result [OF f e1 e2] by (cases v) (simp_all add: readS_apply)
  show "extends_store h0 (fst (validator_validate_s v field h1))"
    using e1 quantity_s_extends [OF e1] by (cases v) (simp_all add: readS_apply)
qed

lemma run_validators_s_stable:
  assumes f: "list_all (\<lambda>a. a < length h0) field"
  shows "extends_store h0 h1 \<Longrightarrow> extends_store h0 h2 \<Longrightarrow>
    snd (run_validators_s vs field h1) = snd (run_validators_s vs field h2) \<and>
    extends_store h0 (fst (run_validators_s vs field h1))"
proof (induction vs arbitrary: h1 h2)
  case Nil
  then show ?case by simp
next
  case (Cons v vs)
  obtain a1 x1 where r1: "validator_validate_s v field h1 = (a1, x1)"
    by (cases "validator_validate_s v field h1")
  obtain a2 x2 where r2: "validator_validate_s v field h2 = (a2, x2)"
    by (cases "validator_validate_s v field h2")
  from validator_s_stable [OF f Cons.prems(1,2), of v] r1 r2
  have x: "x1 = x2" and e1: "extends_store h0 a1" by simp_all
  from validator_s_stable(2) [OF f Cons.prems(2,1), of v] r2
  have e2: "extends_store h0 a2" by simp
  show ?case
  proof (cases x2)
    case (Inl e)
    with r1 r2 x e1 show ?thesis by (cases e) simp_all
  next
    case (Inr b)
    obtain b1 ev1 y1 where s1: "run_validators_s vs field a1 = (b1, ev1, y1)"
      by (cases "run_validators_s vs field a1")
    obtain b2 ev2 y2 where s2: "run_validators_s vs field a2 = (b2, ev2, y2)"
      by (cases "run_validators_s vs field a2")
    from Cons.IH [OF e1 e2] s1 s2 have "ev1 = ev2" "y1 = y2" "extends_store h0 b1" by simp_all
    with r1 r2 x Inr s1 s2 show ?thesis by simp
  qed
qed

text \<open>
  C7. The rows of the caller's grid are objects of the store. After a call of
  \<open>validate_battlefield\<close>, every object the store held before the call is unchanged (so the
  grid's contents are), and a second call on the same grid object, in the store the first
  call left, returns the same result with the same log; after it the grid is unchanged
  again. This holds whether or not rows of the grid share a list object.
\<close>

theorem caller_grid_unchanged:
  assumes "list_all (\<lambda>a. a < length h) field"
  shows "snd (validate_battlefield_s field (fst (validate_battlefield_s field h))) =
           snd (validate_battlefield_s field h) \<and>
         take (length h) (fst (validate_battlefield_s field h)) = h \<and>
         deref (fst (validate_battlefield_s field h)) field = deref h field \<and>
         take (length h)
           (fst (validate_battlefield_s field (fst (validate_battlefield_s field h)))) = h \<and>
         deref (fst (validate_battlefield_s field (fst (validate_battlefield_s field h)))) field =
           deref h field"
proof -
  let ?vs = "[BoardValidator, BattleShipsValidator, BattleShipsQuantityValidator]"
  let ?h1 = "fst (run_validators_s ?vs field h)"
  let ?h2 = "fst (run_validators_s ?vs field ?h1)"
  from run_validators_s_stable [OF assms extends_store_refl extends_store_refl, of ?vs]
  have e1: "extends_store h ?h1" by simp
  from run_validators_s_stable [OF assms e1 extends_store_refl, of ?vs]
  have r: "snd (run_validators_s ?vs field ?h1) = snd (run_validators_s ?vs field h)"
    and e2: "extends_store h ?h2" by simp_all
  from r e1 e2 extends_store_take [OF e1] extends_store_take [OF e2]
    extends_store_deref [OF e1 assms] extends_store_deref [OF e2 assms]
  show ?thesis by (simp add: validate_battlefield_s_def)
qed

theorem caller_grid_unchanged_witness:
  "list_all (\<lambda>a. a < length aliased_rows) aliased_field \<and>
   snd (validate_battlefield_s aliased_field (fst (validate_battlefield_s aliased_field aliased_rows))) =
     snd (validate_battlefield_s aliased_field aliased_rows) \<and>
   take (length aliased_rows) (fst (validate_battlefield_s aliased_field aliased_rows)) =
     aliased_rows \<and>
   fst (validate_battlefield_s aliased_field aliased_rows) \<noteq> aliased_rows"
proof -
  have a: "list_all (\<lambda>a. a < length aliased_rows) aliased_field"
    by (simp add: aliased_rows_def aliased_field_def)
  have b: "fst (validate_battlefield_s aliased_field aliased_rows) \<noteq> aliased_rows"
    by code_simp
  from caller_grid_unchanged [OF a] a b show ?thesis by simp
qed

subsection \<open>A grid with unshared rows: the store agrees with the grid as a value\<close>

text \<open>
  A function on the grid as a value, returning the new grid and a result, is modelled by
  an action when, on a store that is the grid itself (row \<open>k\<close> at address \<open>k\<close>), both fail
  with the same exception or both return the same result and the same rows.
\<close>

definition models :: "nat \<Rightarrow> 'a action \<Rightarrow> (grid \<Rightarrow> error + grid \<times> 'a) \<Rightarrow> bool" where
  "models n p f =
     (\<forall>g. length g = n \<longrightarrow>
        (case f g of
           Inl e \<Rightarrow> snd (p g) = Inl e
         | Inr (g', x) \<Rightarrow> p g = (g', Inr x) \<and> length g' = n))"

definition returnV :: "'a \<Rightarrow> grid \<Rightarrow> error + grid \<times> 'a" where
  "returnV x = (\<lambda>g. Inr (g, x))"

definition readV :: "(grid \<Rightarrow> error + 'a) \<Rightarrow> grid \<Rightarrow> error + grid \<times> 'a" where
  "readV r = (\<lambda>g. case r g of Inl e \<Rightarrow> Inl e | Inr x \<Rightarrow> Inr (g, x))"

definition unitV :: "(grid \<Rightarrow> error + grid) \<Rightarrow> grid \<Rightarrow> error + grid \<times> unit" where
  "unitV f = (\<lambda>g. case f g of Inl e \<Rightarrow> Inl e | Inr g' \<Rightarrow> Inr (g', ()))"

definition bindV ::
  "(grid \<Rightarrow> error + grid \<times> 'a) \<Rightarrow> ('a \<Rightarrow> grid \<Rightarrow> error + grid \<times> 'b) \<Rightarrow> grid \<Rightarrow> error + grid \<times> 'b" where
  "bindV f k = (\<lambda>g. case f g of Inl e \<Rightarrow> Inl e | Inr (g', x) \<Rightarrow> k x g')"

definition stateV ::
  "(quantity_validator \<Rightarrow> error + quantity_validator) \<Rightarrow> (int \<times> int) list \<Rightarrow>
   grid \<Rightarrow> error + grid \<times> (int \<times> int) list" where
  "stateV f d =
     (\<lambda>g. case f \<lparr>board = g, ship_length_to_count = d\<rparr> of
             Inl e \<Rightarrow> Inl e
           | Inr self \<Rightarrow> Inr (board self, ship_length_to_count self))"

lemma models_Inl: "models n p f \<Longrightarrow> length g = n \<Longrightarrow> f g = Inl e \<Longrightarrow> snd (p g) = Inl e"
  unfolding models_def by (drule spec [of _ g]) simp

lemma models_Inr:
  "models n p f \<Longrightarrow> length g = n \<Longrightarrow> f g = Inr (g', x) \<Longrightarrow> p g = (g', Inr x) \<and> length g' = n"
  unfolding models_def by (drule spec [of _ g]) simp

lemma models_returnV: "models n (returnS x) (returnV x)"
  by (simp add: models_def returnV_def returnS_apply)

lemma models_readV:
  "(\<And>g. length g = n \<Longrightarrow> rs g = rv g) \<Longrightarrow> models n (readS rs) (readV rv)"
  by (simp add: models_def readV_def readS_apply split: sum.splits)

lemma models_bindV:
  assumes "models n m f" and "\<And>x. models n (k x) (fk x)"
  shows "models n (bindS m k) (bindV f fk)"
  unfolding models_def
proof (intro allI impI)
  fix g :: grid assume g: "length g = n"
  show "case bindV f fk g of Inl e \<Rightarrow> snd (bindS m k g) = Inl e
        | Inr (g', x) \<Rightarrow> bindS m k g = (g', Inr x) \<and> length g' = n"
  proof (cases "f g")
    case (Inl e)
    with assms(1) g have "snd (m g) = Inl e" by (simp add: models_Inl)
    with Inl show ?thesis by (simp add: bindV_def bindS_apply)
  next
    case (Inr r)
    obtain g1 x where r: "r = (g1, x)" by (cases r)
    with models_Inr [OF assms(1) g, of g1 x] Inr have m: "m g = (g1, Inr x)" "length g1 = n"
      by simp_all
    show ?thesis
    proof (cases "fk x g1")
      case (Inl e)
      with models_Inl [OF assms(2) m(2), of x e] Inr r m show ?thesis
        by (simp add: bindV_def bindS_apply)
    next
      case (Inr r2)
      obtain g2 y where r2: "r2 = (g2, y)" by (cases r2)
      with models_Inr [OF assms(2) m(2), of x g2 y] Inr \<open>f g = Inr r\<close> r m show ?thesis
        by (simp add: bindV_def bindS_apply)
    qed
  qed
qed

lemma models_if:
  "models n p f \<Longrightarrow> models n q h \<Longrightarrow> models n (if c then p else q) (if c then f else h)"
  by simp

lemma nth_upt_0: "k < n \<Longrightarrow> [0..<n] ! k = k"
  by simp

lemma inspect_cell_s_identity:
  "length g = n \<Longrightarrow> inspect_cell_s [0..<n] i j g = inspect_cell g i j"
  by (cases "norm_index n i")
    (auto simp: inspect_cell_s_def inspect_cell_def getitem_norm norm_index_less)

lemma neighbor_s_identity:
  "length g = n \<Longrightarrow> get_neighbor_cell_status_s [0..<n] i j g = get_neighbor_cell_status g i j"
  by (simp add: get_neighbor_cell_status_s_def get_neighbor_cell_status_def
      inspect_cell_s_identity)

lemma validate_ship_vertically_s_identity:
  "length g = n \<Longrightarrow>
   validate_ship_vertically_s [0..<n] i j len g = validate_ship_vertically g i j len"
  by (simp add: validate_ship_vertically_s_def validate_ship_vertically_def neighbor_s_identity)

lemma validate_ship_horizontally_s_identity:
  "length g = n \<Longrightarrow>
   validate_ship_horizontally_s [0..<n] i j len g = validate_ship_horizontally g i j len"
  by (simp add: validate_ship_horizontally_s_def validate_ship_horizontally_def
      neighbor_s_identity)

lemma models_store_cell:
  "models n (store_cell_s [0..<n] a c v) (unitV (\<lambda>g. store_cell g a c v))"
  unfolding models_def
proof (intro allI impI)
  fix g :: grid assume g: "length g = n"
  show "case unitV (\<lambda>g. store_cell g a c v) g of
          Inl e \<Rightarrow> snd (store_cell_s [0..<n] a c v g) = Inl e
        | Inr (g', x) \<Rightarrow> store_cell_s [0..<n] a c v g = (g', Inr x) \<and> length g' = n"
  proof (cases "norm_index n a")
    case None
    with g show ?thesis
      by (simp add: unitV_def store_cell_def store_cell_s_def getitem_norm)
  next
    case (Some k)
    then have k: "k < n" by (rule norm_index_less)
    show ?thesis
    proof (cases "norm_index (length (g ! k)) c")
      case None
      with Some g k show ?thesis
        by (simp add: unitV_def store_cell_def store_cell_s_def getitem_norm setitem_norm)
    next
      case (Some m)
      with \<open>norm_index n a = Some k\<close> g k show ?thesis
        by (simp add: unitV_def store_cell_def store_cell_s_def getitem_norm setitem_norm)
    qed
  qed
qed

lemma models_drop_vertically_loop:
  "models n (drop_vertically_loop_s [0..<n] i j ks) (unitV (\<lambda>g. drop_vertically_loop g i j ks))"
proof (induction ks)
  case Nil
  have "unitV (\<lambda>g. drop_vertically_loop g i j []) = returnV ()"
    by (simp add: unitV_def returnV_def)
  then show ?case by (simp add: models_returnV)
next
  case (Cons k ks)
  have "unitV (\<lambda>g. drop_vertically_loop g i j (k # ks)) =
      bindV (unitV (\<lambda>g. store_cell g (i + k) j 0)) (\<lambda>_. unitV (\<lambda>g. drop_vertically_loop g i j ks))"
    by (rule ext) (simp add: unitV_def bindV_def bindE_def split: sum.splits)
  with Cons show ?case by (simp add: models_bindV models_store_cell)
qed

lemma models_drop_horizontally_loop:
  "models n (drop_horizontally_loop_s [0..<n] i j ks) (unitV (\<lambda>g. drop_horizontally_loop g i j ks))"
proof (induction ks)
  case Nil
  have "unitV (\<lambda>g. drop_horizontally_loop g i j []) = returnV ()"
    by (simp add: unitV_def returnV_def)
  then show ?case by (simp add: models_returnV)
next
  case (Cons k ks)
  have "unitV (\<lambda>g. drop_horizontally_loop g i j (k # ks)) =
      bindV (unitV (\<lambda>g. store_cell g i (j + k) 0)) (\<lambda>_. unitV (\<lambda>g. drop_horizontally_loop g i j ks))"
    by (rule ext) (simp add: unitV_def bindV_def bindE_def split: sum.splits)
  with Cons show ?case by (simp add: models_bindV models_store_cell)
qed

lemma drop_ship_bindV:
  "(\<lambda>g. drop_ship g i j len) =
     bindV (readV (\<lambda>g. validate_ship_vertically g i j len)) (\<lambda>vertical.
     bindV (if vertical then unitV (\<lambda>g. drop_vertically_loop g i j [1..len - 1]) else returnV ()) (\<lambda>_.
     bindV (readV (\<lambda>g. validate_ship_horizontally g i j len)) (\<lambda>horizontal.
     bindV (if horizontal then unitV (\<lambda>g. drop_horizontally_loop g i j [1..len - 1]) else returnV ()) (\<lambda>_.
       returnV (vertical \<or> horizontal)))))"
  by (rule ext)
    (simp add: drop_ship_def drop_vertically_def drop_horizontally_def bindV_def readV_def
      unitV_def returnV_def bindE_def split: sum.splits)

lemma models_drop_ship:
  "models n (drop_ship_s [0..<n] i j len) (\<lambda>g. drop_ship g i j len)"
  unfolding drop_ship_bindV drop_ship_s_def
  by (intro models_bindV models_readV models_if models_returnV models_drop_vertically_loop
      models_drop_horizontally_loop validate_ship_vertically_s_identity
      validate_ship_horizontally_s_identity)

lemma quantity_validator_eta:
  "\<lparr>board = board self, ship_length_to_count = ship_length_to_count self\<rparr> = self"
  by (cases self) simp

lemma count_cell_bindV:
  "stateV (\<lambda>self. count_cell self i j) d =
     bindV (readV (\<lambda>g. inspect_cell g (int i) (int j))) (\<lambda>cell.
       if cell = 0 then returnV d
       else
         bindV (\<lambda>g. drop_ship g (int i) (int j) 4) (\<lambda>flagman.
           if flagman then readV (\<lambda>_. decrement d 4)
           else
             bindV (\<lambda>g. drop_ship g (int i) (int j) 3) (\<lambda>cruiser.
               if cruiser then readV (\<lambda>_. decrement d 3)
               else
                 bindV (\<lambda>g. drop_ship g (int i) (int j) 2) (\<lambda>destroyer.
                   if destroyer then readV (\<lambda>_. decrement d 2)
                   else readV (\<lambda>_. decrement d 1)))))"
  by (rule ext)
    (simp add: stateV_def count_cell_def drop_flagman_def drop_cruiser_def drop_destroyer_def
      bindV_def readV_def returnV_def bindE_def split: sum.splits prod.splits)

lemma models_count_cell:
  "models n (count_cell_s [0..<n] d i j) (stateV (\<lambda>self. count_cell self i j) d)"
  unfolding count_cell_bindV count_cell_s_def
  by (intro models_bindV models_readV models_if models_returnV models_drop_ship
      inspect_cell_s_identity refl)

lemma count_inner_bindV:
  "stateV (\<lambda>self. count_inner self i (j # js)) d =
     bindV (stateV (\<lambda>self. count_cell self i j) d) (\<lambda>d'. stateV (\<lambda>self. count_inner self i js) d')"
  by (rule ext)
    (simp add: stateV_def bindV_def bindE_def quantity_validator_eta split: sum.splits)

lemma models_count_inner:
  "models n (count_inner_s [0..<n] d i js) (stateV (\<lambda>self. count_inner self i js) d)"
proof (induction js arbitrary: d)
  case Nil
  have "stateV (\<lambda>self. count_inner self i []) d = returnV d"
    by (simp add: stateV_def returnV_def)
  then show ?case by (simp add: models_returnV)
next
  case (Cons j js)
  then show ?case
    unfolding count_inner_bindV by (simp add: models_bindV models_count_cell)
qed

lemma count_outer_bindV:
  "stateV (\<lambda>self. count_outer self (i # is)) d =
     bindV (readV (\<lambda>g. Inr (length (g ! i)))) (\<lambda>m.
     bindV (stateV (\<lambda>self. count_inner self i [0..<m]) d) (\<lambda>d'.
       stateV (\<lambda>self. count_outer self is) d'))"
  by (rule ext)
    (simp add: stateV_def bindV_def readV_def bindE_def quantity_validator_eta split: sum.splits)

lemma models_count_outer:
  "\<forall>i\<in>set is. i < n \<Longrightarrow>
   models n (count_outer_s [0..<n] d is) (stateV (\<lambda>self. count_outer self is) d)"
proof (induction "is" arbitrary: d)
  case Nil
  have "stateV (\<lambda>self. count_outer self []) d = returnV d"
    by (simp add: stateV_def returnV_def)
  then show ?case by (simp add: models_returnV)
next
  case (Cons i "is")
  then show ?case
    unfolding count_outer_bindV
    by (auto intro!: models_bindV models_readV models_count_inner)
qed

lemma models_count_and_check:
  "models n (count_and_check [0..<n])
     (bindV (stateV (\<lambda>self. count_outer self [0..<n]) (map (\<lambda>key. (key, 5 - key)) [1..4]))
        (\<lambda>d. if \<not> list_all (\<lambda>x. x = 0) (map snd d)
              then readV (\<lambda>_. Inl (ValueError ShipsIncorrect))
              else returnV True))"
  unfolding count_and_check_def
  by (auto intro!: models_bindV models_count_outer models_if models_readV models_returnV)

lemma quantity_identity:
  "snd (count_and_check [0..<length g] g) = BattleShipsQuantityValidator_validate g"
proof -
  let ?V = "bindV (stateV (\<lambda>self. count_outer self [0..<length g]) (map (\<lambda>key. (key, 5 - key)) [1..4]))
        (\<lambda>d. if \<not> list_all (\<lambda>x. x = 0) (map snd d)
              then readV (\<lambda>_. Inl (ValueError ShipsIncorrect))
              else returnV True)"
  have v: "BattleShipsQuantityValidator_validate g =
      (case ?V g of Inl e \<Rightarrow> Inl e | Inr (g', x) \<Rightarrow> Inr x)"
    by (simp add: BattleShipsQuantityValidator_validate_def BattleShipsQuantityValidator_init_def
        Let_def bindV_def stateV_def readV_def returnV_def bindE_def split: sum.splits)
  show ?thesis
  proof (cases "?V g")
    case (Inl e)
    with models_Inl [OF models_count_and_check refl Inl] v show ?thesis by simp
  next
    case (Inr r)
    obtain g' x where r: "r = (g', x)" by (cases r)
    with models_Inr [OF models_count_and_check refl, of g g' x] Inr v show ?thesis by simp
  qed
qed

lemma quantity_s_value:
  assumes f: "list_all (\<lambda>a. a < length h) field" and d: "distinct field"
  shows "snd (BattleShipsQuantityValidator_validate_s field h) =
         BattleShipsQuantityValidator_validate (deref h field)"
proof -
  let ?hc = "fst (deepcopy field h)" and ?rows = "snd (deepcopy field h)"
  let ?g = "deref h field"
  have n: "length ?g = length field" by (simp add: deref_def)
  have s: "similar ?hc ?rows ?g [0..<length ?g]"
    unfolding similar_def deepcopy_length n
  proof (intro conjI allI impI)
    show "length field = length [0..<length field]" by simp
  next
    fix k assume k: "k < length field"
    from deepcopy_row(2) [OF f extends_store_refl k] show "?rows ! k < length ?hc" .
    from k show "[0..<length field] ! k < length field" by simp
    from deepcopy_row(3) [OF f extends_store_refl k] k
    show "?hc ! (?rows ! k) = ?g ! ([0..<length field] ! k)" by (simp add: deref_def)
  next
    fix k l assume k: "k < length field" and l: "l < length field"
    from d k l have "(field ! k = field ! l) = (k = l)" by (simp add: nth_eq_iff_index_eq)
    with k l show "(?rows ! k = ?rows ! l) = ([0..<length field] ! k = [0..<length field] ! l)"
      unfolding deepcopy_row(1) [OF f extends_store_refl k] deepcopy_row(1) [OF f extends_store_refl l]
      by (simp add: position_eq)
  qed
  have "sim ?rows [0..<length ?g] (count_and_check ?rows) (count_and_check [0..<length ?g])"
    by (rule sim_count_and_check) (simp add: deepcopy_length n)
  with s have "snd (count_and_check ?rows ?hc) = snd (count_and_check [0..<length ?g] ?g)"
    by (simp add: sim_def)
  then show ?thesis
    by (simp add: quantity_s_unfold quantity_identity)
qed

lemma validator_s_value:
  assumes f: "list_all (\<lambda>a. a < length h) field" and d: "distinct field"
    and e: "extends_store h h'"
  shows "snd (validator_validate_s v field h') = validator_validate v (deref h field)"
proof -
  from validator_s_stable(1) [OF f e extends_store_refl]
  have "snd (validator_validate_s v field h') = snd (validator_validate_s v field h)" .
  also have "\<dots> = validator_validate v (deref h field)"
    using quantity_s_value [OF f d] by (cases v) (simp_all add: readS_apply)
  finally show ?thesis .
qed

lemma run_validators_s_value:
  assumes f: "list_all (\<lambda>a. a < length h) field" and d: "distinct field"
  shows "extends_store h h' \<Longrightarrow>
    snd (run_validators_s vs field h') = run_validators vs (deref h field)"
proof (induction vs arbitrary: h')
  case Nil
  then show ?case by simp
next
  case (Cons v vs)
  obtain a x where r: "validator_validate_s v field h' = (a, x)"
    by (cases "validator_validate_s v field h'")
  from validator_s_value [OF f d Cons.prems, of v] r
  have x: "validator_validate v (deref h field) = x" by simp
  from validator_s_stable(2) [OF f Cons.prems extends_store_refl, of v] r
  have e: "extends_store h a" by simp
  show ?case
  proof (cases x)
    case (Inl err)
    with r x show ?thesis by (cases err) simp_all
  next
    case (Inr b)
    obtain a' ev y where s: "run_validators_s vs field a = (a', ev, y)"
      by (cases "run_validators_s vs field a")
    with Cons.IH [OF e] have "run_validators vs (deref h field) = (ev, y)" by simp
    with r x Inr s show ?thesis by simp
  qed
qed

text \<open>
  When the rows of the caller's grid are distinct objects, the call on the store logs and
  returns what \<open>validate_battlefield\<close> does on the grid as a value.
\<close>

theorem store_agrees_with_value:
  assumes "list_all (\<lambda>a. a < length h) field" and "distinct field"
  shows "snd (validate_battlefield_s field h) = validate_battlefield (deref h field)"
  unfolding validate_battlefield_s_def validate_battlefield_def
  by (rule run_validators_s_value [OF assms extends_store_refl])

subsection \<open>No uncaught exception on the store\<close>

text \<open>
  \<open>square_s rows h\<close>: the grid at \<open>rows\<close> has ten rows, each a list of ten cells of the store.
  \<open>total_on I p Q\<close>: from a store with \<open>I\<close>, the action \<open>p\<close> returns, with a result in \<open>Q\<close>,
  and leaves a store with \<open>I\<close>.
\<close>

definition square_s :: "addr list \<Rightarrow> store \<Rightarrow> bool" where
  "square_s rows h =
     (length rows = 10 \<and> list_all (\<lambda>a. a < length h \<and> length (h ! a) = 10) rows)"

definition total_on :: "(store \<Rightarrow> bool) \<Rightarrow> 'a action \<Rightarrow> ('a \<Rightarrow> bool) \<Rightarrow> bool" where
  "total_on I p Q = (\<forall>h. I h \<longrightarrow> (\<exists>x. snd (p h) = Inr x \<and> Q x) \<and> I (fst (p h)))"

lemma total_returnS: "Q x \<Longrightarrow> total_on I (returnS x) Q"
  by (simp add: total_on_def returnS_apply)

lemma total_readS: "(\<And>h. I h \<Longrightarrow> \<exists>x. f h = Inr x \<and> Q x) \<Longrightarrow> total_on I (readS f) Q"
  by (simp add: total_on_def readS_apply)

lemma total_bindS:
  assumes "total_on I m Q" and "\<And>x. Q x \<Longrightarrow> total_on I (f x) R"
  shows "total_on I (bindS m f) R"
  unfolding total_on_def
proof (intro allI impI)
  fix h assume "I h"
  with assms(1) obtain x where x: "snd (m h) = Inr x" "Q x" and i: "I (fst (m h))"
    unfolding total_on_def by blast
  from assms(2) [OF x(2)] i
  have "(\<exists>y. snd (f x (fst (m h))) = Inr y \<and> R y) \<and> I (fst (f x (fst (m h))))"
    unfolding total_on_def by blast
  with x show "(\<exists>y. snd (bindS m f h) = Inr y \<and> R y) \<and> I (fst (bindS m f h))"
    by (simp add: bindS_apply)
qed

lemma total_weaken: "total_on I p Q \<Longrightarrow> (\<And>x. Q x \<Longrightarrow> R x) \<Longrightarrow> total_on I p R"
  unfolding total_on_def by blast

lemma deref_nth: "k < length rows \<Longrightarrow> deref h rows ! k = h ! (rows ! k)"
  by (simp add: deref_def)

lemma square_s_deref: "square_s rows h \<Longrightarrow> square (deref h rows)"
  by (simp add: square_s_def square_def deref_def list_all_iff)

lemma inspect_cell_s_deref: "inspect_cell_s rows i j h = inspect_cell (deref h rows) i j"
  by (cases "norm_index (length rows) i")
    (simp_all add: inspect_cell_s_def inspect_cell_def getitem_norm deref_def norm_index_less)

lemma neighbor_s_deref:
  "get_neighbor_cell_status_s rows i j h = get_neighbor_cell_status (deref h rows) i j"
  by (simp add: get_neighbor_cell_status_s_def get_neighbor_cell_status_def inspect_cell_s_deref)

lemma validate_ship_vertically_s_deref:
  "validate_ship_vertically_s rows i j len h = validate_ship_vertically (deref h rows) i j len"
  by (simp add: validate_ship_vertically_s_def validate_ship_vertically_def neighbor_s_deref)

lemma validate_ship_horizontally_s_deref:
  "validate_ship_horizontally_s rows i j len h = validate_ship_horizontally (deref h rows) i j len"
  by (simp add: validate_ship_horizontally_s_def validate_ship_horizontally_def neighbor_s_deref)

lemma total_store_cell_s:
  assumes "0 \<le> x" and "x < 10" and "0 \<le> y" and "y < 10"
  shows "total_on (square_s rows) (store_cell_s rows x y v) (\<lambda>_. True)"
  unfolding total_on_def
proof (intro allI impI)
  fix h assume sq: "square_s rows h"
  let ?r = "rows ! nat x"
  from sq assms have r: "?r \<in> set rows" "?r < length h" "length (h ! ?r) = 10"
    by (simp_all add: square_s_def list_all_length)
  from sq assms have g: "getitem rows x = Inr ?r"
    by (simp add: getitem_def square_s_def)
  from r assms have s: "setitem (h ! ?r) y v = Inr ((h ! ?r)[nat y := v])"
    by (simp add: setitem_def)
  have "square_s rows (h[?r := (h ! ?r)[nat y := v]])"
    unfolding square_s_def list_all_iff
  proof (intro conjI ballI)
    show "length rows = 10" using sq by (simp add: square_s_def)
  next
    fix a assume "a \<in> set rows"
    with sq have a: "a < length h" "length (h ! a) = 10"
      by (simp_all add: square_s_def list_all_iff)
    then show "a < length (h[?r := (h ! ?r)[nat y := v]])" by simp
    from a r show "length (h[?r := (h ! ?r)[nat y := v]] ! a) = 10"
      by (cases "a = ?r") simp_all
  qed
  with g s show "(\<exists>u. snd (store_cell_s rows x y v h) = Inr u \<and> True) \<and>
      square_s rows (fst (store_cell_s rows x y v h))"
    by (simp add: store_cell_s_def)
qed

lemma total_drop_vertically_loop_s:
  "0 \<le> j \<Longrightarrow> j < 10 \<Longrightarrow> \<forall>k\<in>set ks. 0 \<le> i + k \<and> i + k < 10 \<Longrightarrow>
   total_on (square_s rows) (drop_vertically_loop_s rows i j ks) (\<lambda>_. True)"
proof (induction ks)
  case Nil
  then show ?case by (simp add: total_returnS)
next
  case (Cons k ks)
  then have "total_on (square_s rows) (store_cell_s rows (i + k) j 0) (\<lambda>_. True)"
    by (intro total_store_cell_s) simp_all
  moreover from Cons have "total_on (square_s rows) (drop_vertically_loop_s rows i j ks) (\<lambda>_. True)"
    by simp
  ultimately show ?case by (simp add: total_bindS)
qed

lemma total_drop_horizontally_loop_s:
  "0 \<le> i \<Longrightarrow> i < 10 \<Longrightarrow> \<forall>k\<in>set ks. 0 \<le> j + k \<and> j + k < 10 \<Longrightarrow>
   total_on (square_s rows) (drop_horizontally_loop_s rows i j ks) (\<lambda>_. True)"
proof (induction ks)
  case Nil
  then show ?case by (simp add: total_returnS)
next
  case (Cons k ks)
  then have "total_on (square_s rows) (store_cell_s rows i (j + k) 0) (\<lambda>_. True)"
    by (intro total_store_cell_s) simp_all
  moreover from Cons have "total_on (square_s rows) (drop_horizontally_loop_s rows i j ks) (\<lambda>_. True)"
    by simp
  ultimately show ?case by (simp add: total_bindS)
qed

lemma extends_vertically_bounds:
  "extends_vertically g i j len \<Longrightarrow> \<forall>k\<in>set [1..len - 1]. 0 \<le> i + k \<and> i + k < 10"
  using status_nonzero_bounds [of g _ j] by (auto simp: extends_vertically_def occupied_def)

lemma extends_horizontally_bounds:
  "extends_horizontally g i j len \<Longrightarrow> \<forall>k\<in>set [1..len - 1]. 0 \<le> j + k \<and> j + k < 10"
  using status_nonzero_bounds [of g i] by (auto simp: extends_horizontally_def occupied_def)

lemma total_drop_ship_s:
  assumes "0 \<le> i" and "i < 10" and "0 \<le> j" and "j < 10"
  shows "total_on (square_s rows) (drop_ship_s rows i j len) (\<lambda>_. True)"
  unfolding drop_ship_s_def
proof (rule total_bindS [where Q = "\<lambda>v. v \<longrightarrow> (\<forall>k\<in>set [1..len - 1]. 0 \<le> i + k \<and> i + k < 10)"])
  show "total_on (square_s rows) (readS (validate_ship_vertically_s rows i j len))
      (\<lambda>v. v \<longrightarrow> (\<forall>k\<in>set [1..len - 1]. 0 \<le> i + k \<and> i + k < 10))"
    by (rule total_readS)
      (simp add: validate_ship_vertically_s_deref validate_ship_vertically_square
        square_s_deref extends_vertically_bounds)
next
  fix vertical assume v: "vertical \<longrightarrow> (\<forall>k\<in>set [1..len - 1]. 0 \<le> i + k \<and> i + k < 10)"
  show "total_on (square_s rows)
     (bindS (if vertical then drop_vertically_loop_s rows i j [1..len - 1] else returnS ()) (\<lambda>_.
      bindS (readS (validate_ship_horizontally_s rows i j len)) (\<lambda>horizontal.
      bindS (if horizontal then drop_horizontally_loop_s rows i j [1..len - 1] else returnS ()) (\<lambda>_.
        returnS (vertical \<or> horizontal))))) (\<lambda>_. True)"
  proof (rule total_bindS [where Q = "\<lambda>_. True"])
    show "total_on (square_s rows)
        (if vertical then drop_vertically_loop_s rows i j [1..len - 1] else returnS ()) (\<lambda>_. True)"
      using v assms by (simp add: total_drop_vertically_loop_s total_returnS)
  next
    show "total_on (square_s rows)
       (bindS (readS (validate_ship_horizontally_s rows i j len)) (\<lambda>horizontal.
        bindS (if horizontal then drop_horizontally_loop_s rows i j [1..len - 1] else returnS ()) (\<lambda>_.
          returnS (vertical \<or> horizontal)))) (\<lambda>_. True)"
    proof (rule total_bindS [where Q = "\<lambda>v. v \<longrightarrow> (\<forall>k\<in>set [1..len - 1]. 0 \<le> j + k \<and> j + k < 10)"])
      show "total_on (square_s rows) (readS (validate_ship_horizontally_s rows i j len))
          (\<lambda>v. v \<longrightarrow> (\<forall>k\<in>set [1..len - 1]. 0 \<le> j + k \<and> j + k < 10))"
        by (rule total_readS)
          (simp add: validate_ship_horizontally_s_deref validate_ship_horizontally_square
            square_s_deref extends_horizontally_bounds)
    next
      fix horizontal
      assume hz: "horizontal \<longrightarrow> (\<forall>k\<in>set [1..len - 1]. 0 \<le> j + k \<and> j + k < 10)"
      show "total_on (square_s rows)
         (bindS (if horizontal then drop_horizontally_loop_s rows i j [1..len - 1] else returnS ()) (\<lambda>_.
            returnS (vertical \<or> horizontal))) (\<lambda>_. True)"
      proof (rule total_bindS [where Q = "\<lambda>_. True"])
        show "total_on (square_s rows)
            (if horizontal then drop_horizontally_loop_s rows i j [1..len - 1] else returnS ())
            (\<lambda>_. True)"
          using hz assms by (simp add: total_drop_horizontally_loop_s total_returnS)
      qed (simp add: total_returnS)
    qed
  qed
qed

definition keys_ok :: "(int \<times> int) list \<Rightarrow> bool" where
  "keys_ok d = (map fst d = [1, 2, 3, 4])"

lemma decrement_keys:
  assumes "keys_ok d" and "k \<in> {1, 2, 3, 4}"
  shows "\<exists>d'. decrement d k = Inr d' \<and> keys_ok d'"
proof -
  from assms have "k \<in> fst ` set d"
    unfolding keys_ok_def by (metis list.set_map set_1_4 upto_1_4 set_upto atLeastAtMost_iff
        insert_iff empty_iff list.simps(15) list.set(1))
  then obtain v where v: "map_of d k = Some v"
    by (metis domD dom_map_of_conv_image_fst)
  have "map fst (map (\<lambda>(k', w). if k' = k then (k', v - 1) else (k', w)) d) = map fst d"
    by (induction d) auto
  with v assms(1) show ?thesis by (simp add: decrement_def keys_ok_def)
qed

lemma total_bindS_True:
  "total_on I m (\<lambda>_. True) \<Longrightarrow> (\<And>x. total_on I (f x) R) \<Longrightarrow> total_on I (bindS m f) R"
  by (rule total_bindS [where Q = "\<lambda>_. True"])

lemma total_if: "total_on I p Q \<Longrightarrow> total_on I q Q \<Longrightarrow> total_on I (if c then p else q) Q"
  by simp

lemma total_read_inspect:
  "i < 10 \<Longrightarrow> j < 10 \<Longrightarrow>
   total_on (square_s rows) (readS (inspect_cell_s rows (int i) (int j))) (\<lambda>_. True)"
  by (rule total_readS) (simp add: inspect_cell_s_deref inspect_cell_status square_s_deref)

lemma total_read_decrement:
  "keys_ok d \<Longrightarrow> k \<in> {1, 2, 3, 4} \<Longrightarrow> total_on I (readS (\<lambda>_. decrement d k)) keys_ok"
  by (rule total_readS) (rule decrement_keys)

lemma total_count_cell_s:
  assumes "i < 10" and "j < 10" and "keys_ok d"
  shows "total_on (square_s rows) (count_cell_s rows d i j) keys_ok"
  unfolding count_cell_s_def
  using assms
  by (intro total_bindS_True total_if total_read_inspect total_returnS total_drop_ship_s
      total_read_decrement) simp_all

lemma total_count_inner_s:
  "i < 10 \<Longrightarrow> \<forall>j\<in>set js. j < 10 \<Longrightarrow> keys_ok d \<Longrightarrow>
   total_on (square_s rows) (count_inner_s rows d i js) keys_ok"
proof (induction js arbitrary: d)
  case Nil
  then show ?case by (simp add: total_returnS)
next
  case (Cons j js)
  from Cons.prems have "total_on (square_s rows) (count_cell_s rows d i j) keys_ok"
    by (intro total_count_cell_s) simp_all
  moreover from Cons have "total_on (square_s rows) (count_inner_s rows d' i js) keys_ok"
    if "keys_ok d'" for d'
    using that by simp
  ultimately show ?case
    by (simp add: total_bindS [where Q = keys_ok])
qed

lemma total_count_outer_s:
  "\<forall>i\<in>set is. i < 10 \<Longrightarrow> keys_ok d \<Longrightarrow>
   total_on (square_s rows) (count_outer_s rows d is) keys_ok"
proof (induction "is" arbitrary: d)
  case Nil
  then show ?case by (simp add: total_returnS)
next
  case (Cons i "is")
  from Cons.prems have i: "i < 10" by simp
  have r: "total_on (square_s rows) (readS (\<lambda>h. Inr (length (h ! (rows ! i))))) (\<lambda>n. n = 10)"
    using i by (intro total_readS) (simp add: square_s_def list_all_length)
  have inner: "total_on (square_s rows) (count_inner_s rows d i [0..<10]) keys_ok"
    using i Cons.prems(2) by (intro total_count_inner_s) simp_all
  have rest: "total_on (square_s rows) (count_outer_s rows d' is) keys_ok" if "keys_ok d'" for d'
    using Cons that by simp
  have "total_on (square_s rows)
      (bindS (count_inner_s rows d i [0..<n]) (\<lambda>d'. count_outer_s rows d' is)) keys_ok"
    if "n = 10" for n
    using that inner rest by (simp add: total_bindS [where Q = keys_ok])
  with r show ?case
    by (simp add: total_bindS [where Q = "\<lambda>n. n = 10"])
qed

lemma count_and_check_outcome:
  assumes "square_s rows h"
  shows "snd (count_and_check rows h) = Inr True \<or>
         snd (count_and_check rows h) = Inl (ValueError ShipsIncorrect)"
proof -
  have k: "keys_ok (map (\<lambda>key. (key, 5 - key)) [1..4])"
    by (simp add: keys_ok_def upto_1_4)
  from assms have "\<forall>i\<in>set [0..<length rows]. i < 10" by (simp add: square_s_def)
  from total_count_outer_s [OF this k, of rows] assms
  obtain d where "snd (count_outer_s rows (map (\<lambda>key. (key, 5 - key)) [1..4]) [0..<length rows] h) = Inr d"
    unfolding total_on_def by blast
  then show ?thesis
    by (simp add: count_and_check_def bindS_apply readS_apply returnS_apply)
qed

lemma quantity_s_outcome:
  assumes f: "list_all (\<lambda>a. a < length h) field" and sq: "square (deref h field)"
  shows "snd (BattleShipsQuantityValidator_validate_s field h) = Inr True \<or>
         snd (BattleShipsQuantityValidator_validate_s field h) = Inl (ValueError ShipsIncorrect)"
proof -
  from sq have n: "length field = 10" by (simp add: square_def deref_def)
  have "square_s (snd (deepcopy field h)) (fst (deepcopy field h))"
    unfolding square_s_def list_all_length deepcopy_length
  proof (intro conjI allI impI)
    show "length field = 10" by (rule n)
  next
    fix k assume k: "k < length field"
    from deepcopy_row(2) [OF f extends_store_refl k]
    show "snd (deepcopy field h) ! k < length (fst (deepcopy field h))" .
    from sq k n have "length (h ! (field ! k)) = 10"
      using square_row [of "deref h field" k] by (simp add: deref_def)
    with deepcopy_row(3) [OF f extends_store_refl k]
    show "length (fst (deepcopy field h) ! (snd (deepcopy field h) ! k)) = 10" by simp
  qed
  then show ?thesis
    unfolding quantity_s_unfold by (rule count_and_check_outcome)
qed

text \<open>
  On the store, too, \<open>validate_battlefield\<close> returns a boolean for every grid object, with
  shared rows or not.
\<close>

theorem validate_battlefield_s_total:
  assumes "list_all (\<lambda>a. a < length h) field"
  shows "\<exists>b. snd (snd (validate_battlefield_s field h)) = Inr b"
proof (cases "square (deref h field)")
  case False
  then have "\<exists>m. BoardValidator_validate (deref h field) = Inl (ValueError m)"
    by (auto simp: BoardValidator_validate_eq square_def)
  then show ?thesis
    by (auto simp: validate_battlefield_s_def readS_apply)
next
  case True
  then have b: "BoardValidator_validate (deref h field) = Inr True"
    by (rule BoardValidator_square)
  from BattleShipsValidator_outcome [OF True] show ?thesis
  proof
    assume c: "BattleShipsValidator_validate (deref h field) = Inr True"
    obtain h' x where q: "BattleShipsQuantityValidator_validate_s field h = (h', x)"
      by (cases "BattleShipsQuantityValidator_validate_s field h")
    with quantity_s_outcome [OF assms True] have "x = Inr True \<or> x = Inl (ValueError ShipsIncorrect)"
      by simp
    with b c q show ?thesis
      by (auto simp: validate_battlefield_s_def readS_apply)
  next
    assume "\<exists>m. BattleShipsValidator_validate (deref h field) = Inl (ValueError m)"
    with b show ?thesis
      by (auto simp: validate_battlefield_s_def readS_apply)
  qed
qed

definition shared_row_store :: store where
  "shared_row_store =
     [[1, 1, 0, 0, 0, 0, 0, 0, 0, 0],
      [0, 0, 0, 0, 0, 0, 0, 0, 0, 0],
      [1, 1, 1, 1, 0, 1, 1, 1, 0, 0],
      [1, 1, 1, 0, 1, 1, 0, 1, 0, 1],
      [1, 0, 1, 0, 0, 0, 0, 0, 0, 0]]"

definition shared_row_field :: "addr list" where
  "shared_row_field = [0, 1, 0, 1, 2, 1, 3, 1, 4, 1]"

section \<open>The fleet counter and the legal fleet on grid objects\<close>

text \<open>
  \<open>count_on_copy field h\<close>: the two loops of \<^verbatim>\<open>BattleShipsQuantityValidator.validate\<close>, run
  on the deep copy that \<^verbatim>\<open>__init__\<close> makes of the grid object \<open>field\<close> in the store \<open>h\<close>, with
  the tally seeded with \<open>5 - key\<close>. It returns the store it leaves and the tally.
\<close>

definition count_on_copy :: "addr list \<Rightarrow> ((int \<times> int) list) action" where
  "count_on_copy field =
     (\<lambda>h. case deepcopy field h of
             (h1, rows) \<Rightarrow>
               count_outer_s rows (map (\<lambda>key. (key, 5 - key)) [1..4]) [0..<length rows] h1)"

definition shared_ships :: "ship list" where
  "shared_ships =
     [\<lparr>ship_row = 4, ship_col = 0, ship_axis = Horizontal, ship_len = 4\<rparr>,
      \<lparr>ship_row = 4, ship_col = 5, ship_axis = Horizontal, ship_len = 3\<rparr>,
      \<lparr>ship_row = 6, ship_col = 0, ship_axis = Horizontal, ship_len = 3\<rparr>,
      \<lparr>ship_row = 0, ship_col = 0, ship_axis = Horizontal, ship_len = 2\<rparr>,
      \<lparr>ship_row = 2, ship_col = 0, ship_axis = Horizontal, ship_len = 2\<rparr>,
      \<lparr>ship_row = 6, ship_col = 4, ship_axis = Horizontal, ship_len = 2\<rparr>,
      \<lparr>ship_row = 6, ship_col = 7, ship_axis = Horizontal, ship_len = 1\<rparr>,
      \<lparr>ship_row = 6, ship_col = 9, ship_axis = Horizontal, ship_len = 1\<rparr>,
      \<lparr>ship_row = 8, ship_col = 0, ship_axis = Horizontal, ship_len = 1\<rparr>,
      \<lparr>ship_row = 8, ship_col = 2, ship_axis = Horizontal, ship_len = 1\<rparr>]"

definition unshared_field :: "addr list" where
  "unshared_field = [0, 1, 2, 3, 4, 5, 6, 7, 8, 9]"

lemma deepcopy_similar_identity:
  assumes f: "list_all (\<lambda>a. a < length h) field" and d: "distinct field"
  shows "similar (fst (deepcopy field h)) (snd (deepcopy field h)) (deref h field)
           [0..<length field]"
  unfolding similar_def deepcopy_length
proof (intro conjI allI impI)
  show "length field = length [0..<length field]" by simp
next
  fix k assume k: "k < length field"
  from deepcopy_row(2) [OF f extends_store_refl k]
  show "snd (deepcopy field h) ! k < length (fst (deepcopy field h))" .
  from k show "[0..<length field] ! k < length (deref h field)" by (simp add: deref_def)
  from deepcopy_row(3) [OF f extends_store_refl k] k
  show "fst (deepcopy field h) ! (snd (deepcopy field h) ! k) =
        deref h field ! ([0..<length field] ! k)" by (simp add: deref_def)
next
  fix k l assume k: "k < length field" and l: "l < length field"
  from d k l have "(field ! k = field ! l) = (k = l)" by (simp add: nth_eq_iff_index_eq)
  with k l show "(snd (deepcopy field h) ! k = snd (deepcopy field h) ! l) =
      ([0..<length field] ! k = [0..<length field] ! l)"
    unfolding deepcopy_row(1) [OF f extends_store_refl k] deepcopy_row(1) [OF f extends_store_refl l]
    by (simp add: position_eq)
qed

lemma sim_apply:
  "sim r1 r2 p1 p2 \<Longrightarrow> similar h1 r1 h2 r2 \<Longrightarrow>
   snd (p1 h1) = snd (p2 h2) \<and> similar (fst (p1 h1)) r1 (fst (p2 h2)) r2"
  by (simp add: sim_def)

lemma similar_identity_deref:
  assumes "similar h1 r1 g [0..<n]" and "length g = n"
  shows "deref h1 r1 = g"
proof (rule nth_equalityI)
  from assms show "length (deref h1 r1) = length g" by (simp add: similar_def deref_def)
next
  fix k assume "k < length (deref h1 r1)"
  then have k: "k < length r1" by (simp add: deref_def)
  with assms(1) have "k < n" "h1 ! (r1 ! k) = g ! ([0..<n] ! k)" by (simp_all add: similar_def)
  with k show "deref h1 r1 ! k = g ! k" by (simp add: deref_def)
qed

lemma count_on_copy_scan:
  assumes f: "list_all (\<lambda>a. a < length h) field" and d: "distinct field"
    and sq: "square (deref h field)"
  shows "snd (count_on_copy field h) =
           Inr (map (\<lambda>L. (L, snd (fleet_scan (deref h field)) L)) [1..4])"
    and "deref (fst (count_on_copy field h)) (snd (deepcopy field h)) =
           fst (fleet_scan (deref h field))"
proof -
  let ?g = "deref h field" and ?hc = "fst (deepcopy field h)" and ?rows = "snd (deepcopy field h)"
  let ?init = "map (\<lambda>key. (key, 5 - key)) [1..4] :: (int \<times> int) list"
  let ?n = "length field"
  let ?dict = "map (\<lambda>L. (L, snd (fleet_scan ?g) L)) [1..4]"
  have n: "length ?g = ?n" by (simp add: deref_def)
  have c: "count_on_copy field h = count_outer_s ?rows ?init [0..<?n] ?hc"
    using deepcopy_length [of field h]
    by (cases "deepcopy field h") (simp add: count_on_copy_def)
  from count_outer_scan [OF sq]
  have v: "stateV (\<lambda>self. count_outer self [0..<?n]) ?init ?g = Inr (fst (fleet_scan ?g), ?dict)"
    by (simp add: stateV_def BattleShipsQuantityValidator_init_def state_of_def n)
  have m: "models ?n (count_outer_s [0..<?n] ?init [0..<?n])
      (stateV (\<lambda>self. count_outer self [0..<?n]) ?init)"
    by (rule models_count_outer) simp
  from models_Inr [OF m n v]
  have b: "count_outer_s [0..<?n] ?init [0..<?n] ?g = (fst (fleet_scan ?g), Inr ?dict)"
    and len: "length (fst (fleet_scan ?g)) = ?n" by simp_all
  have "sim ?rows [0..<?n] (count_outer_s ?rows ?init [0..<?n]) (count_outer_s [0..<?n] ?init [0..<?n])"
    by (rule sim_count_outer_s) (simp add: deepcopy_length)
  from sim_apply [OF this deepcopy_similar_identity [OF f d]]
  have r: "snd (count_outer_s ?rows ?init [0..<?n] ?hc) = Inr ?dict"
    and s: "similar (fst (count_outer_s ?rows ?init [0..<?n] ?hc)) ?rows (fst (fleet_scan ?g)) [0..<?n]"
    unfolding b by simp_all
  from r show "snd (count_on_copy field h) = Inr ?dict" by (simp add: c)
  from similar_identity_deref [OF s len]
  show "deref (fst (count_on_copy field h)) ?rows = fst (fleet_scan ?g)" by (simp add: c)
qed

text \<open>
  C2 (as amended). For a 10x10 grid object whose rows are distinct list objects, the loops
  of \<^verbatim>\<open>BattleShipsQuantityValidator.validate\<close> on the private deep copy compute the scan the
  specification describes: they end with the tally and the working copy of \<open>fleet_scan\<close> on
  the grid's cells, \<open>validate\<close> returns when every tally entry is 0 and raises "Ships are
  incorrect" otherwise, and every object the store held before (the caller's rows among
  them) is unchanged.
\<close>

theorem fleet_counter_refines_distinct_rows:
  assumes "list_all (\<lambda>a. a < length h) field" and "distinct field"
    and "square (deref h field)"
  shows "snd (count_on_copy field h) =
           Inr (map (\<lambda>L. (L, snd (fleet_scan (deref h field)) L)) [1..4]) \<and>
         deref (fst (count_on_copy field h)) (snd (deepcopy field h)) =
           fst (fleet_scan (deref h field)) \<and>
         snd (BattleShipsQuantityValidator_validate_s field h) =
           (if fleet_counter (deref h field) then Inr True
            else Inl (ValueError ShipsIncorrect)) \<and>
         take (length h) (fst (BattleShipsQuantityValidator_validate_s field h)) = h"
proof (intro conjI)
  show "snd (count_on_copy field h) =
      Inr (map (\<lambda>L. (L, snd (fleet_scan (deref h field)) L)) [1..4])"
    by (rule count_on_copy_scan(1) [OF assms])
  show "deref (fst (count_on_copy field h)) (snd (deepcopy field h)) =
      fst (fleet_scan (deref h field))"
    by (rule count_on_copy_scan(2) [OF assms])
  show "snd (BattleShipsQuantityValidator_validate_s field h) =
      (if fleet_counter (deref h field) then Inr True else Inl (ValueError ShipsIncorrect))"
    unfolding quantity_s_value [OF assms(1,2)] by (rule quantity_validate_square [OF assms(3)])
  show "take (length h) (fst (BattleShipsQuantityValidator_validate_s field h)) = h"
    by (rule extends_store_take [OF quantity_s_extends [OF extends_store_refl]])
qed

theorem fleet_counter_refines_distinct_rows_witness:
  "list_all (\<lambda>a. a < length full_fleet) unshared_field \<and> distinct unshared_field \<and>
   square (deref full_fleet unshared_field) \<and>
   snd (count_on_copy unshared_field full_fleet) = Inr [(1, 0), (2, 0), (3, 0), (4, 0)] \<and>
   snd (BattleShipsQuantityValidator_validate_s unshared_field full_fleet) = Inr True \<and>
   take (length full_fleet) (fst (BattleShipsQuantityValidator_validate_s unshared_field full_fleet)) =
     full_fleet"
proof -
  have a: "list_all (\<lambda>a. a < length full_fleet) unshared_field" "distinct unshared_field"
    by (simp_all add: unshared_field_def full_fleet_def)
  have g: "deref full_fleet unshared_field = full_fleet"
    by (simp add: deref_def unshared_field_def full_fleet_def)
  have b: "square (deref full_fleet unshared_field)"
    unfolding g by (simp add: square_def full_fleet_def)
  have c: "fleet_counter full_fleet"
    "map (\<lambda>L. (L, snd (fleet_scan full_fleet) L)) [1..4] = [(1, 0), (2, 0), (3, 0), (4, 0)]"
    by code_simp+
  from fleet_counter_refines_distinct_rows [OF a b] a b c show ?thesis by (simp add: g)
qed

text \<open>
  C2 as stated fails when rows share a list object. In \<open>shared_row_field\<close> (10x10, cells 0
  and 1) rows 0 and 2 are one list object holding a 2-cell ship, and the deep copy keeps
  them one object: clearing the trailing cell of the ship in row 0 clears it in row 2 as
  well, whose first cell is then counted as a 1-cell ship. The loops end with the tally
  1: -1, 2: 1, 3: 0, 4: 0 and \<open>validate\<close> raises, where the scan of the specification on the
  same cells ends with every entry 0.
\<close>

theorem shared_rows_scan_differs:
  "square (deref shared_row_store shared_row_field) \<and>
   binary (deref shared_row_store shared_row_field) \<and>
   snd (count_on_copy shared_row_field shared_row_store) =
     Inr [(1, - 1), (2, 1), (3, 0), (4, 0)] \<and>
   map (\<lambda>L. (L, snd (fleet_scan (deref shared_row_store shared_row_field)) L)) [1..4] =
     [(1, 0), (2, 0), (3, 0), (4, 0)] \<and>
   snd (BattleShipsQuantityValidator_validate_s shared_row_field shared_row_store) =
     Inl (ValueError ShipsIncorrect) \<and>
   fleet_counter (deref shared_row_store shared_row_field)"
  by code_simp

text \<open>
  C6 (as amended). A 10x10 grid object whose rows are distinct list objects and whose cells
  are those of a legal fleet (one 4-cell ship, two 3-cell ships, three 2-cell ships and four
  1-cell ships, straight, on the board, no two of them touching orthogonally or diagonally)
  is accepted: all three validators run and \<open>validate_battlefield\<close> returns \<open>True\<close>.
\<close>

theorem legal_fleet_accepted_distinct_rows:
  assumes "legal_fleet ships" and "list_all (\<lambda>a. a < length h) field" and "distinct field"
    and "deref h field = place ships"
  shows "snd (validate_battlefield_s field h) =
           ([Validate BoardValidator, Validate BattleShipsValidator,
             Validate BattleShipsQuantityValidator], Inr True)"
  using store_agrees_with_value [OF assms(2,3)] legal_fleet_value_accepted [OF assms(1,4)]
  by simp

theorem legal_fleet_accepted_distinct_rows_witness:
  "legal_fleet full_fleet_ships \<and> list_all (\<lambda>a. a < length full_fleet) unshared_field \<and>
   distinct unshared_field \<and> deref full_fleet unshared_field = place full_fleet_ships \<and>
   snd (validate_battlefield_s unshared_field full_fleet) =
     ([Validate BoardValidator, Validate BattleShipsValidator,
       Validate BattleShipsQuantityValidator], Inr True)"
proof -
  have a: "list_all (\<lambda>a. a < length full_fleet) unshared_field" "distinct unshared_field"
    by (simp_all add: unshared_field_def full_fleet_def)
  have "deref full_fleet unshared_field = full_fleet"
    by (simp add: deref_def unshared_field_def full_fleet_def)
  with full_fleet_placed have g: "deref full_fleet unshared_field = place full_fleet_ships"
    by simp
  from legal_fleet_accepted_distinct_rows [OF full_fleet_legal a g] full_fleet_legal a g
  show ?thesis by simp
qed

text \<open>
  C6 as stated fails when rows share a list object: the cells of \<open>shared_row_field\<close> are the
  legal fleet \<open>shared_ships\<close>, and the call logs "Ships are incorrect" and returns \<open>False\<close>,
  for the reason given above.
\<close>

theorem shared_rows_legal_fleet_rejected:
  "legal_fleet shared_ships \<and>
   list_all (\<lambda>a. a < length shared_row_store) shared_row_field \<and>
   deref shared_row_store shared_row_field = place shared_ships \<and>
   snd (validate_battlefield_s shared_row_field shared_row_store) =
     ([Validate BoardValidator, Validate BattleShipsValidator,
       Validate BattleShipsQuantityValidator, Debug ShipsIncorrect], Inr False)"
proof -
  have "legal_fleet shared_ships"
    unfolding legal_fleet_def
  proof (intro conjI)
    show "mset (map ship_len shared_ships) = mset [4, 3, 3, 2, 2, 2, 1, 1, 1, 1]"
      by (simp add: shared_ships_def)
    show "list_all on_board shared_ships" by code_simp
    show "all_apart shared_ships" by code_simp
  qed
  moreover have "list_all (\<lambda>a. a < length shared_row_store) shared_row_field"
    by (simp add: shared_row_store_def shared_row_field_def)
  moreover have "deref shared_row_store shared_row_field = place shared_ships"
    by code_simp
  moreover have "snd (validate_battlefield_s shared_row_field shared_row_store) =
     ([Validate BoardValidator, Validate BattleShipsValidator,
       Validate BattleShipsQuantityValidator, Debug ShipsIncorrect], Inr False)"
    by code_simp
  ultimately show ?thesis by simp
qed

end
